theory Spec2Isabelle
  imports Main "HOL-Library.Word"
begin

unbundle bit_operations_syntax

section \<open>Data model\<close>

type_synonym byte = "8 word"
type_synonym u32 = "32 word"
type_synonym u64 = "64 word"
type_synonym bytes = "byte list"

text \<open>
  Go's \<open>int64\<close> is carried as a 64-bit word and read through \<open>sint\<close>; the conversions
  \<open>int64(x)\<close> and \<open>uint64(x)\<close> keep the bits, \<open>uint32(x)\<close> is \<open>ucast\<close>.

  Errors are values. \<open>EOF\<close> is \<open>io.EOF\<close>; \<open>IoError\<close> is an error of the operating
  system (a negative offset or size, a missing file, an empty mapping); \<open>CodecError\<close> is an
  error of the record codec; \<open>Panic\<close> is a run-time panic of Go (slice bounds out of range,
  integer division by zero, \<open>make\<close> with a length that does not fit \<open>int\<close>).
\<close>

datatype error = EOF | IoError | CodecError | Panic

text \<open>
  Modelled from the spec: the declaration of \<open>Config\<close> is not among the sources; the code
  reads \<open>c.Segment.MaxStoreBytes\<close> and \<open>c.Segment.MaxIndexBytes\<close>, both compared with
  \<open>uint64\<close> sizes.
\<close>

record Config =
  MaxStoreBytes :: u64
  MaxIndexBytes :: u64

text \<open>
  Modelled from the spec: \<open>api.Record\<close> is generated code that is not among the sources;
  it has a byte payload and the \<open>uint64\<close> field \<open>Offset\<close> that \<open>Append\<close> stamps.
\<close>

record Record =
  Value :: bytes
  Offset :: u64

abbreviation (input) lenWidth :: "'a::numeral" where "lenWidth \<equiv> 8"

definition offWidth :: u64 where "offWidth = 4"
definition posWidth :: u64 where "posWidth = 8"
definition entWidth :: u64 where "entWidth = offWidth + posWidth"

subsection \<open>Big-endian integers (\<open>enc = binary.BigEndian\<close>)\<close>

definition PutUint32 :: "u32 \<Rightarrow> bytes" where
  "PutUint32 v = [ucast (drop_bit 24 v), ucast (drop_bit 16 v), ucast (drop_bit 8 v), ucast v]"

definition PutUint64 :: "u64 \<Rightarrow> bytes" where
  "PutUint64 v =
     [ucast (drop_bit 56 v), ucast (drop_bit 48 v), ucast (drop_bit 40 v), ucast (drop_bit 32 v),
      ucast (drop_bit 24 v), ucast (drop_bit 16 v), ucast (drop_bit 8 v), ucast v]"

text \<open>Both decoders start with a bounds check (\<open>_ = b[3]\<close>, \<open>_ = b[7]\<close>) that panics.\<close>

fun Uint32 :: "bytes \<Rightarrow> error + u32" where
  "Uint32 (b0 # b1 # b2 # b3 # _) =
     Inr (ucast b3 OR push_bit 8 (ucast b2) OR push_bit 16 (ucast b1) OR push_bit 24 (ucast b0))"
| "Uint32 _ = Inl Panic"

fun Uint64 :: "bytes \<Rightarrow> error + u64" where
  "Uint64 (b0 # b1 # b2 # b3 # b4 # b5 # b6 # b7 # _) =
     Inr (ucast b7 OR push_bit 8 (ucast b6) OR push_bit 16 (ucast b5) OR push_bit 24 (ucast b4)
          OR push_bit 32 (ucast b3) OR push_bit 40 (ucast b2) OR push_bit 48 (ucast b1)
          OR push_bit 56 (ucast b0))"
| "Uint64 _ = Inl Panic"

subsection \<open>Files, slices and the directory\<close>

text \<open>
  A file is its content. \<open>ReadAt f n off\<close> is \<open>f.ReadAt(b, off)\<close> with \<open>len(b) = n\<close>:
  a negative offset is an error, an empty buffer reads nothing, and fewer than \<open>n\<close>
  bytes before the end of the file give \<open>io.EOF\<close>.
\<close>

definition ReadAt :: "bytes \<Rightarrow> nat \<Rightarrow> u64 \<Rightarrow> error + bytes" where
  "ReadAt f n off =
     (if sint off < 0 then Inl IoError
      else if n = 0 then Inr []
      else if nat (sint off) + n \<le> length f then Inr (take n (drop (nat (sint off)) f))
      else Inl EOF)"

text \<open>\<open>Truncate f n\<close> cuts the file to \<open>n\<close> bytes or pads it with zero bytes.\<close>

definition Truncate :: "bytes \<Rightarrow> nat \<Rightarrow> bytes" where
  "Truncate f n = take n f @ replicate (n - length f) 0"

text \<open>
  The slice expression \<open>m[lo:hi]\<close> with \<open>uint64\<close> bounds panics unless
  \<open>lo \<le> hi \<le> len(m)\<close>; \<open>put m lo hi bs\<close> stores \<open>bs\<close> through that slice.
\<close>

definition slice :: "bytes \<Rightarrow> u64 \<Rightarrow> u64 \<Rightarrow> error + bytes" where
  "slice m lo hi =
     (if unat lo \<le> unat hi \<and> unat hi \<le> length m
      then Inr (take (unat hi - unat lo) (drop (unat lo) m)) else Inl Panic)"

definition put :: "bytes \<Rightarrow> u64 \<Rightarrow> u64 \<Rightarrow> bytes \<Rightarrow> error + bytes" where
  "put m lo hi bs =
     (if unat lo \<le> unat hi \<and> unat hi \<le> length m
      then Inr (take (unat lo) m @ take (unat hi - unat lo) bs @ drop (unat hi) m)
      else Inl Panic)"

text \<open>
  The segment's directory maps a file name to the content of the file. While a file is
  open its content lives in the handle (\<open>File\<close>, \<open>mmap\<close>); closing writes it back.
\<close>

type_synonym dir = "string \<rightharpoonup> bytes"

definition OpenFile :: "dir \<Rightarrow> string \<Rightarrow> dir" where
  "OpenFile d nm = (case d nm of None \<Rightarrow> d(nm \<mapsto> []) | Some f \<Rightarrow> d)"

definition digit :: "nat \<Rightarrow> char" where
  "digit n = char_of (48 + n)"

fun decimal :: "nat \<Rightarrow> string" where
  "decimal n = (if n < 10 then [digit n] else decimal (n div 10) @ [digit (n mod 10)])"

declare decimal.simps [simp del]

section \<open>The store\<close>

text \<open>
  \<open>File\<close> is the content of the open file, \<open>buf\<close> the bytes the \<open>bufio.Writer\<close> has
  accepted and not yet written, \<open>werr\<close> the error the writer keeps once a write has
  failed: from then on every \<open>Write\<close> and \<open>Flush\<close> returns it.
\<close>

record store =
  File :: bytes
  buf :: bytes
  werr :: "error option"
  store_size :: u64
  store_name :: string

definition newStore :: "dir \<Rightarrow> string \<Rightarrow> error + store" where
  "newStore d nm =
     (case d nm of
        None \<Rightarrow> Inl IoError
      | Some f \<Rightarrow>
          Inr \<lparr>File = f, buf = [], werr = None, store_size = of_nat (length f), store_name = nm\<rparr>)"

definition buf_Write :: "store \<Rightarrow> bytes \<Rightarrow> (error + nat) \<times> store" where
  "buf_Write s p =
     (case werr s of
        Some e \<Rightarrow> (Inl e, s)
      | None \<Rightarrow> (Inr (length p), s\<lparr>buf := buf s @ p\<rparr>))"

definition buf_Flush :: "store \<Rightarrow> error option \<times> store" where
  "buf_Flush s =
     (case werr s of
        Some e \<Rightarrow> (Some e, s)
      | None \<Rightarrow> (None, s\<lparr>File := File s @ buf s, buf := []\<rparr>))"

definition store_Append :: "store \<Rightarrow> bytes \<Rightarrow> (error + u64 \<times> u64) \<times> store" where
  "store_Append s p =
     (let pos = store_size s in
      case buf_Write s (PutUint64 (of_nat (length p))) of
        (Inl e, s1) \<Rightarrow> (Inl e, s1)
      | (Inr _, s1) \<Rightarrow>
          (case buf_Write s1 p of
             (Inl e, s2) \<Rightarrow> (Inl e, s2)
           | (Inr w, s2) \<Rightarrow>
               (let w' = w + lenWidth in
                (Inr (of_nat w', pos), s2\<lparr>store_size := store_size s2 + of_nat w'\<rparr>))))"

definition store_Read :: "store \<Rightarrow> u64 \<Rightarrow> (error + bytes) \<times> store" where
  "store_Read s pos =
     (case buf_Flush s of
        (Some e, s1) \<Rightarrow> (Inl e, s1)
      | (None, s1) \<Rightarrow>
          (case ReadAt (File s1) lenWidth pos of
             Inl e \<Rightarrow> (Inl e, s1)
           | Inr size' \<Rightarrow>
               (case Uint64 size' of
                  Inl e \<Rightarrow> (Inl e, s1)
                | Inr n \<Rightarrow>
                    if sint n < 0 then (Inl Panic, s1)
                    else (case ReadAt (File s1) (unat n) (pos + lenWidth) of
                            Inl e \<Rightarrow> (Inl e, s1)
                          | Inr b \<Rightarrow> (Inr b, s1)))))"

definition store_Close :: "dir \<Rightarrow> store \<Rightarrow> error option \<times> dir" where
  "store_Close d s =
     (case buf_Flush s of
        (Some e, s1) \<Rightarrow> (Some e, d)
      | (None, s1) \<Rightarrow> (None, d(store_name s1 \<mapsto> File s1)))"

section \<open>The index\<close>

text \<open>
  \<open>mmap\<close> is the shared mapping of the whole index file, \<open>index_size\<close> the logical size.
\<close>

record index =
  mmap :: bytes
  index_size :: u64
  index_name :: string

definition newIndex :: "dir \<Rightarrow> string \<Rightarrow> Config \<Rightarrow> error + index \<times> dir" where
  "newIndex d nm c =
     (case d nm of
        None \<Rightarrow> Inl IoError
      | Some f \<Rightarrow>
          if sint (MaxIndexBytes c) < 0 then Inl IoError
          else (let f' = Truncate f (unat (MaxIndexBytes c)) in
                if f' = [] then Inl IoError
                else Inr (\<lparr>mmap = f', index_size = of_nat (length f), index_name = nm\<rparr>,
                          d(nm \<mapsto> f'))))"

definition index_Close :: "dir \<Rightarrow> index \<Rightarrow> error option \<times> dir" where
  "index_Close d i =
     (if sint (index_size i) < 0 then (Some IoError, d)
      else (None, d(index_name i \<mapsto> Truncate (mmap i) (unat (index_size i)))))"

definition index_Read :: "index \<Rightarrow> u64 \<Rightarrow> error + u32 \<times> u64" where
  "index_Read i offset =
     (if index_size i = 0 then Inl EOF
      else
        (let out = (if offset = - 1 then ucast (index_size i div entWidth - 1)
                    else ucast offset) :: u32;
             pos = ucast out * entWidth
         in if index_size i < pos + entWidth then Inl EOF
            else (case slice (mmap i) pos (pos + offWidth) of
                    Inl e \<Rightarrow> Inl e
                  | Inr b \<Rightarrow>
                      (case Uint32 b of
                         Inl e \<Rightarrow> Inl e
                       | Inr out' \<Rightarrow>
                           (case slice (mmap i) (pos + offWidth) (pos + entWidth) of
                              Inl e \<Rightarrow> Inl e
                            | Inr b' \<Rightarrow>
                                (case Uint64 b' of
                                   Inl e \<Rightarrow> Inl e
                                 | Inr pos' \<Rightarrow> Inr (out', pos')))))))"

definition index_Write :: "index \<Rightarrow> u32 \<Rightarrow> u64 \<Rightarrow> error option \<times> index" where
  "index_Write i offset pos =
     (if of_nat (length (mmap i)) < index_size i + entWidth then (Some EOF, i)
      else
        (case put (mmap i) (index_size i) (index_size i + offWidth) (PutUint32 offset) of
           Inl e \<Rightarrow> (Some e, i)
         | Inr m1 \<Rightarrow>
             (case put m1 (index_size i + offWidth) (index_size i + entWidth) (PutUint64 pos) of
                Inl e \<Rightarrow> (Some e, i\<lparr>mmap := m1\<rparr>)
              | Inr m2 \<Rightarrow> (None, i\<lparr>mmap := m2, index_size := index_size i + entWidth\<rparr>))))"

section \<open>The segment\<close>

record segment =
  store :: store
  index :: index
  baseOffset :: u64
  nextOffset :: u64
  config :: Config

text \<open>
  \<open>proto.Marshal\<close> and \<open>proto.Unmarshal\<close> belong to a library; the segment's functions
  take them as the parameters \<open>Marshal\<close> and \<open>Unmarshal\<close>.
\<close>

type_synonym marshal = "Record \<Rightarrow> error + bytes"
type_synonym unmarshal = "bytes \<Rightarrow> error + Record"

definition newSegment :: "dir \<Rightarrow> u64 \<Rightarrow> Config \<Rightarrow> error + segment \<times> dir" where
  "newSegment d base c =
     (let sn = decimal (unat base) @ ''.store'';
          d1 = OpenFile d sn
      in case newStore d1 sn of
           Inl e \<Rightarrow> Inl e
         | Inr st \<Rightarrow>
             (let inm = decimal (unat base) @ ''.index'';
                  d2 = OpenFile d1 inm
              in case newIndex d2 inm c of
                   Inl e \<Rightarrow> Inl e
                 | Inr (ix, d3) \<Rightarrow>
                     (case index_Read ix (- 1) of
                        Inl e \<Rightarrow>
                          if e = Panic then Inl Panic
                          else Inr (\<lparr>store = st, index = ix, baseOffset = base,
                                     nextOffset = base, config = c\<rparr>, d3)
                      | Inr (off, _) \<Rightarrow>
                          Inr (\<lparr>store = st, index = ix, baseOffset = base,
                                nextOffset = base + ucast off + 1, config = c\<rparr>, d3))))"

definition segment_Append :: "marshal \<Rightarrow> segment \<Rightarrow> Record \<Rightarrow> (error + u64) \<times> segment" where
  "segment_Append Marshal s record =
     (let cur = nextOffset s;
          record' = record\<lparr>Offset := cur\<rparr>
      in case Marshal record' of
           Inl e \<Rightarrow> (Inl e, s)
         | Inr p \<Rightarrow>
             (case store_Append (store s) p of
                (Inl e, st) \<Rightarrow> (Inl e, s\<lparr>store := st\<rparr>)
              | (Inr (_, pos), st) \<Rightarrow>
                  (case index_Write (index s) (ucast (nextOffset s - baseOffset s)) pos of
                     (Some e, ix) \<Rightarrow> (Inl e, s\<lparr>store := st, index := ix\<rparr>)
                   | (None, ix) \<Rightarrow>
                       (Inr cur, s\<lparr>store := st, index := ix, nextOffset := nextOffset s + 1\<rparr>))))"

definition segment_Read :: "unmarshal \<Rightarrow> segment \<Rightarrow> u64 \<Rightarrow> (error + Record) \<times> segment" where
  "segment_Read Unmarshal s offset =
     (case index_Read (index s) (offset - baseOffset s) of
        Inl e \<Rightarrow> (Inl e, s)
      | Inr (_, pos) \<Rightarrow>
          (case store_Read (store s) pos of
             (Inl e, st) \<Rightarrow> (Inl e, s\<lparr>store := st\<rparr>)
           | (Inr p, st) \<Rightarrow> (Unmarshal p, s\<lparr>store := st\<rparr>)))"

definition segment_IsMaxed :: "segment \<Rightarrow> bool" where
  "segment_IsMaxed s \<longleftrightarrow>
     store_size (store s) \<ge> MaxStoreBytes (config s) \<or>
     index_size (index s) \<ge> MaxIndexBytes (config s)"

definition segment_Close :: "dir \<Rightarrow> segment \<Rightarrow> error option \<times> dir" where
  "segment_Close d s =
     (case index_Close d (index s) of
        (Some e, d1) \<Rightarrow> (Some e, d1)
      | (None, d1) \<Rightarrow> store_Close d1 (store s))"

text \<open>Integer division panics on a zero divisor.\<close>

definition go_div :: "u64 \<Rightarrow> u64 \<Rightarrow> error + u64" where
  "go_div a b = (if b = 0 then Inl Panic else Inr (a div b))"

definition nearestMultiple :: "u64 \<Rightarrow> u64 \<Rightarrow> error + u64" where
  "nearestMultiple j k =
     (if j \<ge> 0 then (case go_div j k of Inl e \<Rightarrow> Inl e | Inr q \<Rightarrow> Inr (q * k))
      else (case go_div (j - k + 1) k of Inl e \<Rightarrow> Inl e | Inr q \<Rightarrow> Inr (q * k)))"


section \<open>Notions used in the statements\<close>

text \<open>The \<open>k\<close>-th twelve-byte entry of a mapping, decoded as \<open>Read\<close> decodes it.\<close>

definition entry :: "bytes \<Rightarrow> nat \<Rightarrow> error + u32 \<times> u64" where
  "entry m k =
     (case Uint32 (take 4 (drop (12 * k) m)) of
        Inl e \<Rightarrow> Inl e
      | Inr off \<Rightarrow>
          (case Uint64 (take 8 (drop (12 * k + 4) m)) of
             Inl e \<Rightarrow> Inl e
           | Inr pos \<Rightarrow> Inr (off, pos)))"

text \<open>The entry number that \<open>Read\<close> computes from its argument (the variable \<open>out\<close>).\<close>

definition index_slot :: "index \<Rightarrow> u64 \<Rightarrow> u32" where
  "index_slot i n = (if n = - 1 then ucast (index_size i div entWidth - 1) else ucast n)"

text \<open>
  The logical size of an index lies within its mapping, whose length is an \<open>int\<close> of Go.
\<close>

definition index_inv :: "index \<Rightarrow> bool" where
  "index_inv i \<longleftrightarrow>
     unat (index_size i) \<le> length (mmap i) \<and> length (mmap i) < 9223372036854775808"

text \<open>An index with the two entries \<open>(0, 0)\<close> and \<open>(1, 9)\<close> in a mapping of 36 bytes.\<close>

definition two_entries :: index where
  "two_entries =
     \<lparr>mmap = [0,0,0,0, 0,0,0,0,0,0,0,0,  0,0,0,1, 0,0,0,0,0,0,0,9,  0,0,0,0, 0,0,0,0,0,0,0,0],
      index_size = 24, index_name = ''0.index''\<rparr>"

text \<open>Successive calls of \<open>Append\<close> on a store, stopping at the first error.\<close>

fun store_appends :: "store \<Rightarrow> bytes list \<Rightarrow> error + store" where
  "store_appends s [] = Inr s"
| "store_appends s (p # ps) =
     (case store_Append s p of
        (Inl e, _) \<Rightarrow> Inl e
      | (Inr _, s1) \<Rightarrow> store_appends s1 ps)"

text \<open>The store entry of a payload: the length as eight big-endian bytes, then the payload.\<close>

definition frame :: "bytes \<Rightarrow> bytes" where
  "frame p = PutUint64 (of_nat (length p)) @ p"

text \<open>Successive calls of \<open>Append\<close> on a segment, stopping at the first error.\<close>

fun appends :: "marshal \<Rightarrow> segment \<Rightarrow> Record list \<Rightarrow> error + u64 list \<times> segment" where
  "appends M s [] = Inr ([], s)"
| "appends M s (r # rs) =
     (case segment_Append M s r of
        (Inl e, _) \<Rightarrow> Inl e
      | (Inr off, s1) \<Rightarrow>
          (case appends M s1 rs of
             Inl e \<Rightarrow> Inl e
           | Inr (offs, s2) \<Rightarrow> Inr (off # offs, s2)))"

text \<open>A directory is fresh for a base offset when it has neither of the segment's files.\<close>

definition fresh :: "dir \<Rightarrow> u64 \<Rightarrow> bool" where
  "fresh d base \<longleftrightarrow>
     d (decimal (unat base) @ ''.store'') = None \<and> d (decimal (unat base) @ ''.index'') = None"

text \<open>
  What the segment needs from the codec: decoding the bytes of a record gives the record.
\<close>

definition codec_ok :: "marshal \<Rightarrow> unmarshal \<Rightarrow> bool" where
  "codec_ok M U \<longleftrightarrow> (\<forall>r p. M r = Inr p \<longrightarrow> U p = Inr r)"

text \<open>
  A codec to run the segment on concrete records: the offset as eight bytes, then the
  payload.
\<close>

definition plain_Marshal :: marshal where
  "plain_Marshal r = Inr (PutUint64 (Offset r) @ Value r)"

definition plain_Unmarshal :: unmarshal where
  "plain_Unmarshal p =
     (case Uint64 p of
        Inl e \<Rightarrow> Inl CodecError
      | Inr off \<Rightarrow> Inr \<lparr>Value = drop 8 p, Offset = off\<rparr>)"

text \<open>The operations on an open segment that change its state, and a run of them.\<close>

datatype op = OpAppend Record | OpRead u64

fun step :: "marshal \<Rightarrow> unmarshal \<Rightarrow> segment \<Rightarrow> op \<Rightarrow> segment" where
  "step M U s (OpAppend r) = snd (segment_Append M s r)"
| "step M U s (OpRead a) = snd (segment_Read U s a)"

definition run :: "marshal \<Rightarrow> unmarshal \<Rightarrow> segment \<Rightarrow> op list \<Rightarrow> segment" where
  "run M U s ops = foldl (step M U) s ops"

text \<open>
  The store position of the \<open>i\<close>-th of the payloads \<open>ps\<close>, and the state of a segment that
  holds exactly the payloads \<open>ps\<close>: the store is their entries in order, index entry \<open>j\<close>
  is the pair of \<open>j\<close> and the position of payload \<open>j\<close>, and the files carry the segment's
  names.
\<close>

definition position :: "bytes list \<Rightarrow> nat \<Rightarrow> nat" where
  "position ps i = length (concat (map frame (take i ps)))"

definition seg_holds :: "segment \<Rightarrow> bytes list \<Rightarrow> bool" where
  "seg_holds s ps \<longleftrightarrow>
     werr (store s) = None \<and>
     File (store s) @ buf (store s) = concat (map frame ps) \<and>
     store_size (store s) = of_nat (length (concat (map frame ps))) \<and>
     store_name (store s) = decimal (unat (baseOffset s)) @ ''.store'' \<and>
     index_name (index s) = decimal (unat (baseOffset s)) @ ''.index'' \<and>
     index_size (index s) = of_nat (12 * length ps) \<and>
     12 * length ps \<le> length (mmap (index s)) \<and>
     mmap (index s) \<noteq> [] \<and>
     length (mmap (index s)) = unat (MaxIndexBytes (config s)) \<and>
     length (mmap (index s)) < 9223372036854775808 \<and>
     (\<forall>j<length ps. take 12 (drop (12 * j) (mmap (index s)))
                        = PutUint32 (of_nat j) @ PutUint64 (of_nat (position ps j))) \<and>
     nextOffset s = baseOffset s + of_nat (length ps)"

text \<open>
  A small configuration (three index entries), the segment that \<open>newSegment\<close> makes of it
  in the empty directory for the base offset 16, and the directory it leaves.
\<close>

definition demo_config :: Config where
  "demo_config = \<lparr>MaxStoreBytes = 1024, MaxIndexBytes = 36\<rparr>"

definition demo_segment :: segment where
  "demo_segment =
     \<lparr>store = \<lparr>File = [], buf = [], werr = None, store_size = 0, store_name = ''16.store''\<rparr>,
      index = \<lparr>mmap = replicate 36 0, index_size = 0, index_name = ''16.index''\<rparr>,
      baseOffset = 16, nextOffset = 16, config = demo_config\<rparr>"

definition demo_dir :: dir where
  "demo_dir = [''16.store'' \<mapsto> [], ''16.index'' \<mapsto> replicate 36 0]"

text \<open>The number of bytes the store of a segment holds, written or buffered.\<close>

definition held :: "segment \<Rightarrow> nat" where
  "held s = length (File (store s) @ buf (store s))"

text \<open>Three records with the payloads \<open>a\<close>, \<open>bb\<close> and \<open>ccc\<close>.\<close>

definition demo_records :: "Record list" where
  "demo_records =
     [\<lparr>Value = [97], Offset = 0\<rparr>, \<lparr>Value = [98, 98], Offset = 0\<rparr>,
      \<lparr>Value = [99, 99, 99], Offset = 0\<rparr>]"

text \<open>
  A configuration whose index has room for \<open>2^32 + 1\<close> entries, and as many records: the
  first with payload \<open>0\<close>, all others with payload \<open>1\<close>.
\<close>

definition big_config :: Config where
  "big_config = \<lparr>MaxStoreBytes = 1024, MaxIndexBytes = 51539607564\<rparr>"

definition big_run :: "Record list" where
  "big_run = \<lparr>Value = [0], Offset = 0\<rparr> # replicate 4294967296 \<lparr>Value = [1], Offset = 0\<rparr>"

section \<open>Properties\<close>

subsection \<open>Big-endian round trip\<close>

lemma bit_byte_of:
  fixes v :: "'a::len word"
  shows "bit (push_bit k (ucast (ucast (drop_bit k v) :: byte)) :: 'a word) n \<longleftrightarrow> k \<le> n \<and> n < k + 8 \<and> bit v n"
  by (auto simp: bit_simps dest: bit_imp_le_length)

lemma bit_byte_of0:
  fixes v :: "'a::len word"
  shows "bit (ucast (ucast v :: byte) :: 'a word) n \<longleftrightarrow> n < 8 \<and> bit v n"
  by (auto simp: bit_simps dest: bit_imp_le_length)

lemma Uint32_Put: "Uint32 (PutUint32 v @ bs) = Inr v"
proof -
  have "ucast (ucast v :: byte) OR push_bit 8 (ucast (ucast (drop_bit 8 v) :: byte))
        OR push_bit 16 (ucast (ucast (drop_bit 16 v) :: byte))
        OR push_bit 24 (ucast (ucast (drop_bit 24 v) :: byte)) = v"
    apply (rule bit_word_eqI)
    apply (simp only: bit_or_iff bit_byte_of bit_byte_of0)
    apply (simp only: len_bit0 len_num1 )
    apply simp
    apply arith
    done
  then show ?thesis by (simp add: PutUint32_def)
qed

lemma Uint64_Put: "Uint64 (PutUint64 v @ bs) = Inr v"
proof -
  have "ucast (ucast v :: byte) OR push_bit 8 (ucast (ucast (drop_bit 8 v) :: byte))
        OR push_bit 16 (ucast (ucast (drop_bit 16 v) :: byte))
        OR push_bit 24 (ucast (ucast (drop_bit 24 v) :: byte))
        OR push_bit 32 (ucast (ucast (drop_bit 32 v) :: byte))
        OR push_bit 40 (ucast (ucast (drop_bit 40 v) :: byte))
        OR push_bit 48 (ucast (ucast (drop_bit 48 v) :: byte))
        OR push_bit 56 (ucast (ucast (drop_bit 56 v) :: byte)) = v"
    apply (rule bit_word_eqI)
    apply (simp only: bit_or_iff bit_byte_of bit_byte_of0)
    apply simp
    apply arith
    done
  then show ?thesis by (simp add: PutUint64_def)
qed

subsection \<open>Word arithmetic\<close>

lemma unat_u32_bound: "unat (x :: u32) < 4294967296"
  using unsigned_less [of x, where 'a = nat] by simp

lemma unat_u64_bound: "unat (x :: u64) < 18446744073709551616"
  using unsigned_less [of x, where 'a = nat] by simp

lemma unat_ucast_u32: "unat (ucast (x :: u32) :: u64) = unat x"
  using unat_u32_bound [of x] by (simp add: unsigned_ucast_eq take_bit_nat_eq_self)

lemma unat_entry_pos: "unat (ucast (out :: u32) * entWidth) = 12 * unat out"
proof -
  have "unat (ucast out :: u64) * unat (12 :: u64) < 2 ^ LENGTH(64)"
    using unat_u32_bound [of out] by (simp add: unat_ucast_u32)
  then have "unat (ucast out * (12 :: u64)) = unat (ucast out :: u64) * unat (12 :: u64)"
    by (simp only: unat_mult_lem [THEN iffD1])
  then show ?thesis by (simp add: entWidth_def offWidth_def posWidth_def unat_ucast_u32)
qed

lemma unat_add_small:
  fixes a :: u64
  assumes "unat a + n < 2 ^ 64"
  shows "unat (a + of_nat n) = unat a + n"
proof -
  have n: "unat (of_nat n :: u64) = n" using assms by (simp add: unat_of_nat)
  have "unat a + unat (of_nat n :: u64) < 2 ^ LENGTH(64)" using assms n by simp
  then show ?thesis using n by (simp add: unat_add_lem [THEN iffD1])
qed

lemma unat_entry_pos4: "unat (ucast (out :: u32) * entWidth + offWidth) = 12 * unat out + 4"
  using unat_add_small [of "ucast out * entWidth" 4] unat_u32_bound [of out]
  by (simp add: unat_entry_pos offWidth_def)

lemma unat_entry_pos12: "unat (ucast (out :: u32) * entWidth + entWidth) = 12 * unat out + 12"
  using unat_add_small [of "ucast out * entWidth" 12] unat_u32_bound [of out]
  by (simp add: unat_entry_pos) (simp add: offWidth_def posWidth_def entWidth_def)


lemma Uint32_long: "4 \<le> length bs \<Longrightarrow> \<exists>v. Uint32 bs = Inr v"
  by (cases bs rule: Uint32.cases) auto

lemma Uint64_long: "8 \<le> length bs \<Longrightarrow> \<exists>v. Uint64 bs = Inr v"
  by (cases bs rule: Uint64.cases) auto

lemma entry_in_range: "12 * k + 12 \<le> length m \<Longrightarrow> \<exists>off pos. entry m k = Inr (off, pos)"
proof -
  assume a: "12 * k + 12 \<le> length m"
  then obtain off where 1: "Uint32 (take 4 (drop (12 * k) m)) = Inr off"
    using Uint32_long [of "take 4 (drop (12 * k) m)"] by auto
  from a obtain pos where 2: "Uint64 (take 8 (drop (12 * k + 4) m)) = Inr pos"
    using Uint64_long [of "take 8 (drop (12 * k + 4) m)"] by auto
  show ?thesis by (simp add: entry_def 1 2)
qed

lemma index_Read_slot:
  "index_Read i n =
     (if index_size i = 0 then Inl EOF
      else if index_size i < ucast (index_slot i n) * entWidth + entWidth then Inl EOF
      else (case slice (mmap i) (ucast (index_slot i n) * entWidth)
                   (ucast (index_slot i n) * entWidth + offWidth) of
              Inl e \<Rightarrow> Inl e
            | Inr b \<Rightarrow>
                (case Uint32 b of
                   Inl e \<Rightarrow> Inl e
                 | Inr out' \<Rightarrow>
                     (case slice (mmap i) (ucast (index_slot i n) * entWidth + offWidth)
                            (ucast (index_slot i n) * entWidth + entWidth) of
                        Inl e \<Rightarrow> Inl e
                      | Inr b' \<Rightarrow>
                          (case Uint64 b' of
                             Inl e \<Rightarrow> Inl e
                           | Inr pos' \<Rightarrow> Inr (out', pos'))))))"
  unfolding index_Read_def index_slot_def Let_def by (rule refl)

lemma index_Read_EOF:
  "index_size i = 0 \<or> unat (index_size i) < 12 * unat (index_slot i n) + 12
   \<Longrightarrow> index_Read i n = Inl EOF"
  by (auto simp: index_Read_slot word_less_nat_alt unat_entry_pos12)

lemma index_Read_entry:
  assumes "index_size i \<noteq> 0"
    and "12 * unat (index_slot i n) + 12 \<le> unat (index_size i)"
    and "unat (index_size i) \<le> length (mmap i)"
  shows "index_Read i n = entry (mmap i) (unat (index_slot i n))"
proof -
  let ?t = "unat (index_slot i n)"
  let ?pos = "ucast (index_slot i n) * entWidth :: u64"
  have ge: "\<not> index_size i < ?pos + entWidth"
    using assms(2) by (simp add: word_less_nat_alt unat_entry_pos12)
  have s1: "slice (mmap i) ?pos (?pos + offWidth) = Inr (take 4 (drop (12 * ?t) (mmap i)))"
    using assms(2,3) by (simp add: slice_def unat_entry_pos unat_entry_pos4)
  have s2: "slice (mmap i) (?pos + offWidth) (?pos + entWidth)
              = Inr (take 8 (drop (12 * ?t + 4) (mmap i)))"
    using assms(2,3) by (simp add: slice_def unat_entry_pos12 unat_entry_pos4)
  show ?thesis
    using assms(1) ge by (simp add: index_Read_slot s1 s2 entry_def split: sum.splits)
qed


lemma length_PutUint32 [simp]: "length (PutUint32 v) = 4"
  by (simp add: PutUint32_def)

lemma length_PutUint64 [simp]: "length (PutUint64 v) = 8"
  by (simp add: PutUint64_def)

lemma PutUint_nonempty [simp]: "PutUint32 v \<noteq> []" "PutUint64 w \<noteq> []"
  by (simp_all add: PutUint32_def PutUint64_def)

lemma overwrite_twice:
  assumes "k + 12 \<le> length m" and "length a = 4" and "length b = 8"
  shows "take (k + 4) (take k m @ a @ drop (k + 4) m) @ b
           @ drop (k + 12) (take k m @ a @ drop (k + 4) m)
         = take k m @ a @ b @ drop (k + 12) m"
  using assms by (simp add: min_def add.commute)

lemma unat_of_nat_len:
  "n < 9223372036854775808 \<Longrightarrow> unat (of_nat n :: u64) = n"
  by (simp add: unat_of_nat)

lemma unat_size_plus:
  assumes "index_inv i"
  shows "unat (index_size i + offWidth) = unat (index_size i) + 4"
    and "unat (index_size i + entWidth) = unat (index_size i) + 12"
  using assms unat_add_small [of "index_size i" 4] unat_add_small [of "index_size i" 12]
  by (simp_all add: index_inv_def offWidth_def posWidth_def entWidth_def)

lemma index_Write_full:
  assumes "index_inv i" and "length (mmap i) < unat (index_size i) + 12"
  shows "index_Write i off pos = (Some EOF, i)"
  using assms unat_size_plus [OF assms(1)]
  by (simp add: index_Write_def word_less_nat_alt unat_of_nat_len index_inv_def)

lemma index_Write_room:
  assumes "index_inv i" and "unat (index_size i) + 12 \<le> length (mmap i)"
  shows "index_Write i off pos =
           (None, i\<lparr>mmap := take (unat (index_size i)) (mmap i) @ PutUint32 off @ PutUint64 pos
                              @ drop (unat (index_size i) + 12) (mmap i),
                     index_size := index_size i + entWidth\<rparr>)"
proof -
  let ?k = "unat (index_size i)"
  let ?m1 = "take ?k (mmap i) @ PutUint32 off @ drop (?k + 4) (mmap i)"
  have g: "\<not> of_nat (length (mmap i)) < index_size i + entWidth"
    using assms unat_size_plus [OF assms(1)]
    by (simp add: word_less_nat_alt unat_of_nat_len index_inv_def)
  have p1: "put (mmap i) (index_size i) (index_size i + offWidth) (PutUint32 off) = Inr ?m1"
    using assms(2) unat_size_plus [OF assms(1)] by (simp add: put_def)
  have l1: "length ?m1 = length (mmap i)" using assms(2) by simp
  have p2: "put ?m1 (index_size i + offWidth) (index_size i + entWidth) (PutUint64 pos)
              = Inr (take (?k + 4) ?m1 @ PutUint64 pos @ drop (?k + 12) ?m1)"
    using assms(2) unat_size_plus [OF assms(1)] l1 by (simp only: put_def) simp
  show ?thesis
    using g overwrite_twice [of ?k "mmap i" "PutUint32 off" "PutUint64 pos"] assms(2)
    by (simp add: index_Write_def p1 p2 del: append_assoc)
qed


lemma sint_negative_iff:
  fixes x :: u64
  shows "sint x < 0 \<longleftrightarrow> 9223372036854775808 \<le> unat x"
proof -
  have b: "0 \<le> uint x" "uint x < 18446744073709551616"
    using uint_lt2p [of x] by simp_all
  have "sint x < 0 \<longleftrightarrow> odd (uint x div 9223372036854775808)"
    by (simp add: sint_uint bit_iff_odd)
  also have "\<dots> \<longleftrightarrow> 9223372036854775808 \<le> uint x"
  proof (cases "uint x < 9223372036854775808")
    case True
    then show ?thesis using b by simp
  next
    case False
    then have "uint x div 9223372036854775808 = 1" using b by linarith
    then show ?thesis using False by simp
  qed
  also have "\<dots> \<longleftrightarrow> 9223372036854775808 \<le> unat x"
    unfolding uint_nat by linarith
  finally show ?thesis .
qed

lemma sint_small:
  fixes x :: u64
  assumes "unat x < 9223372036854775808"
  shows "sint x = int (unat x)"
proof -
  have "uint x < 9223372036854775808"
    using assms unfolding uint_nat by linarith
  moreover have "- 9223372036854775808 \<le> uint x" using uint_ge_0 [of x] by linarith
  ultimately have a: "signed_take_bit 63 (uint x) = uint x"
    by (simp only: signed_take_bit_int_eq_self_iff) simp
  have "sint x = signed_take_bit 63 (uint x)" by (simp add: sint_uint)
  also have "\<dots> = uint x" by (fact a)
  also have "\<dots> = int (unat x)" by (rule uint_nat)
  finally show ?thesis .
qed

lemma unat_of_nat_le: "unat (of_nat n :: u64) \<le> n"
  by (simp add: unat_of_nat)

lemma newIndex_inv:
  assumes "d nm = Some f" and "length f \<le> unat (MaxIndexBytes c)"
    and "newIndex d nm c = Inr (i, d')"
  shows "index_inv i"
proof -
  from assms(1,3) have nn: "\<not> sint (MaxIndexBytes c) < 0"
    by (auto simp: newIndex_def split: if_splits)
  then have b: "unat (MaxIndexBytes c) < 9223372036854775808"
    by (simp add: sint_negative_iff)
  from assms(1,3) nn have i: "mmap i = Truncate f (unat (MaxIndexBytes c))"
      "index_size i = of_nat (length f)"
    by (auto simp: newIndex_def Let_def split: if_splits)
  have "length (mmap i) = unat (MaxIndexBytes c)"
    using assms(2) by (simp add: i Truncate_def)
  moreover have "unat (index_size i) \<le> length f"
    by (simp add: i unat_of_nat_le)
  ultimately show ?thesis using assms(2) b by (simp add: index_inv_def)
qed

lemma index_Read_no_panic:
  assumes "index_inv i"
  shows "index_Read i n \<noteq> Inl Panic"
proof (cases "index_size i = 0 \<or> unat (index_size i) < 12 * unat (index_slot i n) + 12")
  case True
  then show ?thesis by (simp add: index_Read_EOF)
next
  case False
  then have r: "index_Read i n = entry (mmap i) (unat (index_slot i n))"
    using assms by (intro index_Read_entry) (auto simp: index_inv_def)
  from False assms have "12 * unat (index_slot i n) + 12 \<le> length (mmap i)"
    by (simp add: index_inv_def)
  from entry_in_range [OF this] show ?thesis by (auto simp: r)
qed

lemma index_Write_inv:
  assumes "index_inv i"
  shows "fst (index_Write i off pos) \<noteq> Some Panic \<and> index_inv (snd (index_Write i off pos))"
proof (cases "length (mmap i) < unat (index_size i) + 12")
  case True
  then show ?thesis using assms by (simp add: index_Write_full)
next
  case False
  then have room: "unat (index_size i) + 12 \<le> length (mmap i)" by simp
  show ?thesis
    using assms room unat_size_plus(2) [OF assms]
    by (simp add: index_Write_room [OF assms room] index_inv_def)
qed

text \<open>
  C9. An index created from a file no longer than \<open>MaxIndexBytes\<close> has its size within the
  mapping. From then on \<open>Read\<close> and \<open>Write\<close> keep the size within the mapping and none of
  their slice expressions leaves the mapped region: neither of them panics.
\<close>

theorem index_access_within_mmap:
  "(d nm = Some f \<and> length f \<le> unat (MaxIndexBytes c) \<and> newIndex d nm c = Inr (i0, d')
      \<longrightarrow> index_inv i0) \<and>
   (index_inv i \<longrightarrow>
      index_Read i n \<noteq> Inl Panic \<and>
      fst (index_Write i off pos) \<noteq> Some Panic \<and>
      index_inv (snd (index_Write i off pos)))"
  using newIndex_inv [of d nm f c i0 d'] index_Read_no_panic [of i n]
    index_Write_inv [of i off pos]
  by blast


theorem index_access_within_mmap_witness:
  "newIndex [''0.index'' \<mapsto> []] ''0.index'' \<lparr>MaxStoreBytes = 1024, MaxIndexBytes = 12\<rparr>
      = Inr (\<lparr>mmap = [0,0,0,0,0,0,0,0,0,0,0,0], index_size = 0, index_name = ''0.index''\<rparr>,
             [''0.index'' \<mapsto> [0,0,0,0,0,0,0,0,0,0,0,0]]) \<and>
   index_inv \<lparr>mmap = [0,0,0,0,0,0,0,0,0,0,0,0], index_size = 0, index_name = ''0.index''\<rparr> \<and>
   index_Write \<lparr>mmap = [0,0,0,0,0,0,0,0,0,0,0,0], index_size = 0, index_name = ''0.index''\<rparr> 0 5
     = (None, \<lparr>mmap = [0,0,0,0,0,0,0,0,0,0,0,5], index_size = 12, index_name = ''0.index''\<rparr>) \<and>
   index_inv \<lparr>mmap = [0,0,0,0,0,0,0,0,0,0,0,5], index_size = 12, index_name = ''0.index''\<rparr> \<and>
   index_Read \<lparr>mmap = [0,0,0,0,0,0,0,0,0,0,0,5], index_size = 12, index_name = ''0.index''\<rparr> 0
     = Inr (0, 5)"
proof -
  let ?c = "\<lparr>MaxStoreBytes = 1024, MaxIndexBytes = 12\<rparr>"
  let ?i0 = "\<lparr>mmap = [0,0,0,0,0,0,0,0,0,0,0,0], index_size = 0, index_name = ''0.index''\<rparr>"
  let ?d' = "[''0.index'' \<mapsto> [0,0,0,0,0,0,0,0,0,0,0,0::byte]]"
  have "replicate 12 (0::byte) = [0,0,0,0,0,0,0,0,0,0,0,0]" by code_simp
  then have n: "newIndex [''0.index'' \<mapsto> []] ''0.index'' ?c = Inr (?i0, ?d')"
    by (simp add: newIndex_def Truncate_def Let_def)
  have w: "index_Write ?i0 0 5
     = (None, \<lparr>mmap = [0,0,0,0,0,0,0,0,0,0,0,5], index_size = 12, index_name = ''0.index''\<rparr>)"
    by code_simp
  have r: "index_Read \<lparr>mmap = [0,0,0,0,0,0,0,0,0,0,0,5], index_size = 12, index_name = ''0.index''\<rparr> 0
     = Inr (0, 5)"
    by code_simp
  show ?thesis
    using n w r index_access_within_mmap [of "[''0.index'' \<mapsto> []]" "''0.index''" "[]" ?c ?i0 ?d' ?i0 0 0 5]
    by simp
qed

subsection \<open>Index bounds\<close>

lemma unat_ucast_down: "unat (ucast (w :: u64) :: u32) = unat w mod 4294967296"
  by (simp add: unsigned_ucast_eq take_bit_eq_mod)

lemma unat_of_nat_u64: "n < 18446744073709551616 \<Longrightarrow> unat (of_nat n :: u64) = n"
  by (simp add: unat_of_nat)

lemma unat_neg_of_nat:
  assumes "0 < k" "k < 18446744073709551616"
  shows "unat (- of_nat k :: u64) = 18446744073709551616 - k"
proof -
  have "of_nat k + (of_nat (18446744073709551616 - k) :: u64) = of_nat 18446744073709551616"
    using assms by (simp flip: of_nat_add)
  also have "\<dots> = 0" by simp
  finally have "- of_nat k = (of_nat (18446744073709551616 - k) :: u64)"
    by (simp only: neg_eq_iff_add_eq_0)
  then have "unat (- of_nat k :: u64) = unat (of_nat (18446744073709551616 - k) :: u64)"
    by (rule arg_cong)
  also have "\<dots> = (18446744073709551616 - k) mod 2 ^ LENGTH(64)"
    by (rule unat_of_nat)
  also have "\<dots> = 18446744073709551616 - k" using assms by simp
  finally show ?thesis .
qed

lemma unat_m1: "unat (- 1 :: u64) = 18446744073709551615"
  by (simp add: unsigned_minus_1_eq_mask mask_eq_exp_minus_1)

lemma of_nat_ne_m1: "k < 18446744073709551615 \<Longrightarrow> (of_nat k :: u64) \<noteq> - 1"
proof
  assume a: "k < 18446744073709551615" "(of_nat k :: u64) = - 1"
  then have "unat (of_nat k :: u64) = unat (- 1 :: u64)" by simp
  then show False using a(1) by (simp add: unat_of_nat_u64 unat_m1)
qed

lemma neg_of_nat_ne_m1:
  "1 < k \<Longrightarrow> k < 18446744073709551616 \<Longrightarrow> (- of_nat k :: u64) \<noteq> - 1"
proof
  assume a: "1 < k" "k < 18446744073709551616" "(- of_nat k :: u64) = - 1"
  then have "(of_nat k :: u64) = 1" by simp
  then have "unat (of_nat k :: u64) = 1" by simp
  then show False using a(1,2) by (simp add: unat_of_nat)
qed

lemma unat_div12:
  assumes "12 * e < (18446744073709551616::nat)"
  shows "unat ((of_nat (12 * e) :: u64) div entWidth) = e"
proof -
  have "unat (of_nat (12 * e) :: u64) = 12 * e"
    using assms by (simp only: unat_of_nat) simp
  then have "unat ((of_nat (12 * e) :: u64) div 12) = 12 * e div unat (12 :: u64)"
    by (simp only: unat_div)
  then show ?thesis by (simp add: entWidth_def offWidth_def posWidth_def)
qed

lemma index_slot_plain: "n \<noteq> - 1 \<Longrightarrow> index_slot i n = ucast n"
  by (simp add: index_slot_def)

lemma index_slot_last:
  assumes "index_size i = of_nat (12 * e)" and "0 < e" and "e \<le> 4294967296"
  shows "unat (index_slot i (- 1)) = e - 1"
proof -
  have b: "12 * e < (18446744073709551616::nat)" using assms(3) by simp
  let ?q = "index_size i div entWidth"
  have q: "unat ?q = e" using unat_div12 [OF b] by (simp add: assms(1))
  then have "?q \<noteq> 0" using assms(2) by auto
  then have "unat (?q - 1) = e - 1" using q by (simp add: unat_minus_one)
  then show ?thesis using assms(3) by (simp add: index_slot_def unat_ucast_down)
qed

lemma index_Read_slot_cases:
  assumes "index_size i = of_nat (12 * e)" and "12 * e \<le> length (mmap i)"
    and "length (mmap i) < 9223372036854775808"
  shows "e \<le> unat (index_slot i n) \<Longrightarrow> index_Read i n = Inl EOF"
    and "unat (index_slot i n) < e \<Longrightarrow>
           index_Read i n = entry (mmap i) (unat (index_slot i n)) \<and> index_Read i n \<noteq> Inl EOF"
proof -
  have "unat (of_nat (12 * e) :: u64) = 12 * e"
    using assms(2,3) by (intro unat_of_nat_u64) linarith
  then have sz: "unat (index_size i) = 12 * e"
    by (simp only: assms(1))
  show "index_Read i n = Inl EOF" if "e \<le> unat (index_slot i n)"
    using that by (intro index_Read_EOF) (simp add: sz)
  show "index_Read i n = entry (mmap i) (unat (index_slot i n)) \<and> index_Read i n \<noteq> Inl EOF"
    if "unat (index_slot i n) < e"
  proof -
    have nz: "index_size i \<noteq> 0" using that sz by auto
    have le: "12 * unat (index_slot i n) + 12 \<le> unat (index_size i)" using that sz by simp
    have r: "index_Read i n = entry (mmap i) (unat (index_slot i n))"
      using nz le assms(2) sz by (intro index_Read_entry) simp_all
    from le sz assms(2) have "12 * unat (index_slot i n) + 12 \<le> length (mmap i)" by simp
    from entry_in_range [OF this] r show ?thesis by auto
  qed
qed

lemma index_Read_ranges:
  assumes "index_size i = of_nat (12 * e)" and "12 * e \<le> length (mmap i)"
    and "length (mmap i) < 9223372036854775808" and "e \<le> 4294967296"
  shows "(n \<noteq> - 1 \<longrightarrow> (index_Read i n = Inl EOF \<longleftrightarrow> e \<le> unat (ucast n :: u32))) \<and>
         (n \<noteq> - 1 \<and> unat (ucast n :: u32) < e \<longrightarrow>
            index_Read i n = entry (mmap i) (unat (ucast n :: u32))) \<and>
         (\<forall>k. e \<le> k \<and> k < 4294967296 \<longrightarrow> index_Read i (of_nat k) = Inl EOF) \<and>
         (\<forall>k. 1 < k \<and> k + e \<le> 4294967296 \<longrightarrow> index_Read i (- of_nat k) = Inl EOF) \<and>
         index_Read i (- 1) = (if e = 0 then Inl EOF else entry (mmap i) (e - 1))"
proof -
  note c = index_Read_slot_cases [OF assms(1,2,3)]
  have 1: "n \<noteq> - 1 \<longrightarrow> (index_Read i n = Inl EOF \<longleftrightarrow> e \<le> unat (ucast n :: u32))"
    using c [of n] by (cases "e \<le> unat (ucast n :: u32)") (auto simp: index_slot_plain)
  have 2: "n \<noteq> - 1 \<and> unat (ucast n :: u32) < e \<longrightarrow>
            index_Read i n = entry (mmap i) (unat (ucast n :: u32))"
    using c(2) [of n] by (auto simp: index_slot_plain)
  have 3: "index_Read i (of_nat k) = Inl EOF" if "e \<le> k" "k < 4294967296" for k
  proof -
    have "(of_nat k :: u64) \<noteq> - 1" using that by (intro of_nat_ne_m1) simp
    moreover have "unat (ucast (of_nat k :: u64) :: u32) = k"
      using that by (simp add: unat_ucast_down unat_of_nat_u64)
    ultimately show ?thesis using c(1) [of "of_nat k"] that by (simp add: index_slot_plain)
  qed
  have 4: "index_Read i (- of_nat k) = Inl EOF" if "1 < k" "k + e \<le> 4294967296" for k
  proof -
    have "(- of_nat k :: u64) \<noteq> - 1" using that by (intro neg_of_nat_ne_m1) simp_all
    moreover have "unat (- of_nat k :: u64) = 18446744073709551616 - k"
      using that by (intro unat_neg_of_nat) simp_all
    then have "unat (ucast (- of_nat k :: u64) :: u32) = (18446744073709551616 - k) mod 4294967296"
      by (simp add: unat_ucast_down)
    moreover have "(18446744073709551616 - k) mod 4294967296 = 4294967296 - k"
    proof -
      have "18446744073709551616 - k = (4294967296 - k) + 4294967295 * 4294967296"
        using that by simp
      then have "(18446744073709551616 - k) mod 4294967296
                   = ((4294967296 - k) + 4294967295 * 4294967296) mod 4294967296"
        by (rule arg_cong)
      also have "\<dots> = (4294967296 - k) mod 4294967296"
        by (rule mod_mult_self1)
      also have "\<dots> = 4294967296 - k" using that by simp
      finally show ?thesis .
    qed
    ultimately show ?thesis using c(1) [of "- of_nat k"] that by (simp add: index_slot_plain)
  qed
  have 5: "index_Read i (- 1) = (if e = 0 then Inl EOF else entry (mmap i) (e - 1))"
  proof (cases "e = 0")
    case True
    then show ?thesis using assms(1) by (simp add: index_Read_EOF)
  next
    case False
    then have "unat (index_slot i (- 1)) = e - 1"
      using index_slot_last [OF assms(1) _ assms(4)] by simp
    then show ?thesis using c(2) [of "- 1"] False by simp
  qed
  from 1 2 3 4 5 show ?thesis by blast
qed

text \<open>
  C6 (amended). For an index that holds \<open>e\<close> entries (\<open>size = 12 * e\<close>, within the mapping,
  \<open>e \<le> 2^32\<close>): \<open>Read n\<close> with \<open>n \<noteq> -1\<close> addresses entry \<open>n mod 2^32\<close>, the truncation of
  \<open>n\<close> to \<open>uint32\<close>; it returns \<open>EOF\<close> exactly when \<open>n mod 2^32 \<ge> e\<close> and that entry
  otherwise. So it returns \<open>EOF\<close> for every \<open>n\<close> with \<open>e \<le> n < 2^32\<close> and for every \<open>n\<close>
  with \<open>e - 2^32 \<le> n < -1\<close>. \<open>Read (-1)\<close> returns \<open>EOF\<close> on the empty index and entry
  \<open>e - 1\<close> otherwise.
\<close>

theorem index_Read_bounds:
  assumes "index_size i = of_nat (12 * e)" and "12 * e \<le> length (mmap i)"
    and "length (mmap i) < 9223372036854775808" and "e \<le> 4294967296"
  shows "(n \<noteq> - 1 \<longrightarrow> (index_Read i n = Inl EOF \<longleftrightarrow> e \<le> unat (ucast n :: u32))) \<and>
         (n \<noteq> - 1 \<and> unat (ucast n :: u32) < e \<longrightarrow>
            index_Read i n = entry (mmap i) (unat (ucast n :: u32))) \<and>
         (\<forall>k. e \<le> k \<and> k < 4294967296 \<longrightarrow> index_Read i (of_nat k) = Inl EOF) \<and>
         (\<forall>k. 1 < k \<and> k + e \<le> 4294967296 \<longrightarrow> index_Read i (- of_nat k) = Inl EOF) \<and>
         index_Read i (- 1) = (if e = 0 then Inl EOF else entry (mmap i) (e - 1))"
  using assms by (rule index_Read_ranges)

theorem index_Read_bounds_witness:
  "index_Read two_entries 2 = Inl EOF \<and> index_Read two_entries 1 = Inr (1, 9) \<and>
   index_Read two_entries (- 3) = Inl EOF \<and> index_Read two_entries (- 1) = Inr (1, 9)"
proof -
  have h: "index_size two_entries = of_nat (12 * 2)" "12 * 2 \<le> length (mmap two_entries)"
    "length (mmap two_entries) < 9223372036854775808" "(2::nat) \<le> 4294967296"
    by (simp_all add: two_entries_def)
  have e: "entry (mmap two_entries) 1 = Inr (1, 9)" by code_simp
  have "index_Read two_entries 2 = Inl EOF" "index_Read two_entries 1 = Inr (1, 9)"
    using index_Read_bounds [OF h, of 2] index_Read_bounds [OF h, of 1] e by simp_all
  moreover have "index_Read two_entries (- 3) = Inl EOF"
    using index_Read_bounds [OF h, of 0] by (elim conjE allE [of _ 3]) simp
  moreover have "index_Read two_entries (- 1) = Inr (1, 9)"
    using index_Read_bounds [OF h, of 0] e by simp
  ultimately show ?thesis by simp
qed

text \<open>
  The claim as written fails: on an index of two entries, \<open>Read (2^32)\<close> is not \<open>EOF\<close>
  although \<open>2^32 \<ge> 2\<close>, and \<open>Read (1 - 2^32)\<close> is not \<open>EOF\<close> although \<open>1 - 2^32 < -1\<close>.
\<close>

theorem index_Read_wraps_counterexample:
  "index_size two_entries = 12 * 2 \<and>
   2 \<le> sint (4294967296 :: u64) \<and> index_Read two_entries 4294967296 = Inr (0, 0) \<and>
   sint (- 4294967295 :: u64) < - 1 \<and> index_Read two_entries (- 4294967295) = Inr (1, 9)"
  by (simp add: two_entries_def) code_simp

subsection \<open>Store framing\<close>

lemma length_frame [simp]: "length (frame p) = 8 + length p"
  by (simp add: frame_def)

lemma store_Append_ok:
  assumes "werr s = None"
  shows "store_Append s p =
           (Inr (of_nat (length p) + 8, store_size s),
            s\<lparr>buf := buf s @ frame p, store_size := store_size s + (of_nat (length p) + 8)\<rparr>)"
  using assms by (simp add: store_Append_def buf_Write_def frame_def Let_def)

lemma store_Append_err:
  assumes "werr s = Some e"
  shows "store_Append s p = (Inl e, s)"
  using assms by (simp add: store_Append_def buf_Write_def Let_def)

lemma store_Append_Inr:
  assumes "store_Append s p = (Inr (n, pos), s1)"
  shows "werr s = None"
  using assms by (cases "werr s") (simp_all add: store_Append_err)

lemma store_appends_ok:
  assumes "werr s = None"
  shows "\<exists>s2. store_appends s ps = Inr s2 \<and> werr s2 = None \<and> File s2 = File s \<and>
              buf s2 = buf s @ concat (map frame ps) \<and>
              store_size s2 = store_size s + of_nat (\<Sum>p\<leftarrow>ps. 8 + length p) \<and>
              store_name s2 = store_name s"
  using assms
proof (induction ps arbitrary: s)
  case Nil
  then show ?case by simp
next
  case (Cons p ps)
  let ?s1 = "s\<lparr>buf := buf s @ frame p, store_size := store_size s + (of_nat (length p) + 8)\<rparr>"
  have "werr ?s1 = None" using Cons.prems by simp
  from Cons.IH [OF this] obtain s2 where
    "store_appends ?s1 ps = Inr s2" "werr s2 = None" "File s2 = File ?s1"
    "buf s2 = buf ?s1 @ concat (map frame ps)"
    "store_size s2 = store_size ?s1 + of_nat (\<Sum>p\<leftarrow>ps. 8 + length p)"
    "store_name s2 = store_name ?s1"
    by blast
  then show ?case
    by (simp add: store_Append_ok [OF Cons.prems] add.assoc add.commute add.left_commute)
qed

lemma length_concat_frames: "length (concat (map frame ps)) = (\<Sum>p\<leftarrow>ps. 8 + length p)"
  by (induction ps) simp_all

text \<open>
  C5. For every byte sequence \<open>p\<close>, \<open>Append p\<close> on a store whose writer has not failed
  returns \<open>n = len(p) + 8\<close> and \<open>pos\<close> equal to the size before the call, and adds
  \<open>len(p) + 8\<close> to the size (in \<open>uint64\<close> arithmetic); whenever \<open>Append\<close> returns without
  error, these are the values. After appending \<open>p_0 .. p_{n-1}\<close> to a fresh store the bytes
  held by the store number exactly the sum of \<open>8 + len(p_i)\<close>, and \<open>size\<close> is that sum.
\<close>

theorem store_Append_framing:
  "(werr s = None \<longrightarrow>
      (\<exists>s1. store_Append s p = (Inr (of_nat (length p) + 8, store_size s), s1) \<and>
            store_size s1 = store_size s + (of_nat (length p) + 8) \<and>
            File s1 @ buf s1 = File s @ buf s @ frame p)) \<and>
   (store_Append s p = (Inr (n, pos), s') \<longrightarrow>
      n = of_nat (length p) + 8 \<and> pos = store_size s \<and>
      store_size s' = store_size s + (of_nat (length p) + 8)) \<and>
   (d nm = Some [] \<and> newStore d nm = Inr s0 \<longrightarrow>
      (\<exists>s2. store_appends s0 ps = Inr s2 \<and>
            length (File s2 @ buf s2) = (\<Sum>p\<leftarrow>ps. 8 + length p) \<and>
            store_size s2 = of_nat (\<Sum>p\<leftarrow>ps. 8 + length p) \<and>
            ((\<Sum>p\<leftarrow>ps. 8 + length p) < 2 ^ 64 \<longrightarrow>
               unat (store_size s2) = (\<Sum>p\<leftarrow>ps. 8 + length p))))"
proof -
  have 1: "\<exists>s1. store_Append s p = (Inr (of_nat (length p) + 8, store_size s), s1) \<and>
            store_size s1 = store_size s + (of_nat (length p) + 8) \<and>
            File s1 @ buf s1 = File s @ buf s @ frame p"
    if "werr s = None"
    using that by (simp add: store_Append_ok)
  have 2: "n = of_nat (length p) + 8 \<and> pos = store_size s \<and>
      store_size s' = store_size s + (of_nat (length p) + 8)"
    if a: "store_Append s p = (Inr (n, pos), s')"
  proof -
    from store_Append_Inr [OF a] have "werr s = None" .
    from store_Append_ok [OF this, of p] a show ?thesis by auto
  qed
  have 3: "\<exists>s2. store_appends s0 ps = Inr s2 \<and>
            length (File s2 @ buf s2) = (\<Sum>p\<leftarrow>ps. 8 + length p) \<and>
            store_size s2 = of_nat (\<Sum>p\<leftarrow>ps. 8 + length p) \<and>
            ((\<Sum>p\<leftarrow>ps. 8 + length p) < 2 ^ 64 \<longrightarrow>
               unat (store_size s2) = (\<Sum>p\<leftarrow>ps. 8 + length p))"
    if a: "d nm = Some [] \<and> newStore d nm = Inr s0"
  proof -
    from a have s0: "werr s0 = None" "File s0 = []" "buf s0 = []" "store_size s0 = 0"
      by (auto simp: newStore_def)
    from store_appends_ok [OF s0(1), of ps] obtain s2 where
      s2: "store_appends s0 ps = Inr s2" "File s2 = File s0"
      "buf s2 = buf s0 @ concat (map frame ps)"
      "store_size s2 = store_size s0 + of_nat (\<Sum>p\<leftarrow>ps. 8 + length p)"
      by blast
    have "unat (of_nat (\<Sum>p\<leftarrow>ps. 8 + length p) :: u64) = (\<Sum>p\<leftarrow>ps. 8 + length p)"
      if "(\<Sum>p\<leftarrow>ps. 8 + length p) < 2 ^ 64"
      using that by (simp add: unat_of_nat)
    then show ?thesis using s2 s0 by (simp add: length_concat_frames)
  qed
  from 1 2 3 show ?thesis by blast
qed

theorem store_Append_framing_witness:
  "store_Append \<lparr>File = [], buf = [], werr = None, store_size = 0, store_name = ''0.store''\<rparr> [104, 105]
     = (Inr (10, 0),
        \<lparr>File = [], buf = [0,0,0,0,0,0,0,2,104,105], werr = None, store_size = 10,
         store_name = ''0.store''\<rparr>) \<and>
   (\<exists>s2. store_appends \<lparr>File = [], buf = [], werr = None, store_size = 0, store_name = ''0.store''\<rparr>
           [[97], [98, 98], [99, 99, 99]] = Inr s2 \<and> store_size s2 = 30 \<and>
         length (File s2 @ buf s2) = 30)"
proof -
  let ?s0 = "\<lparr>File = [], buf = [], werr = None, store_size = 0, store_name = ''0.store''\<rparr>"
  let ?s1 = "\<lparr>File = [], buf = [0,0,0,0,0,0,0,2,104,105], werr = None, store_size = 10,
         store_name = ''0.store''\<rparr>"
  have n: "[''0.store'' \<mapsto> []] ''0.store'' = Some [] \<and> newStore [''0.store'' \<mapsto> []] ''0.store'' = Inr ?s0"
    by (simp add: newStore_def)
  have a: "store_Append ?s0 [104, 105] = (Inr (10, 0), ?s1)" by code_simp
  from store_Append_framing [of ?s0 "[104, 105]" 10 0 ?s1 "[''0.store'' \<mapsto> []]" "''0.store''" ?s0
      "[[97], [98, 98], [99, 99, 99]]"] n a
  show ?thesis by (auto simp del: store_appends.simps)
qed

subsection \<open>Appending to a segment\<close>

lemma segment_Append_Inr:
  assumes "segment_Append M s r = (Inr off, s')"
  shows "\<exists>p n pos st ix.
           M (r\<lparr>Offset := nextOffset s\<rparr>) = Inr p \<and>
           store_Append (store s) p = (Inr (n, pos), st) \<and>
           index_Write (index s) (ucast (nextOffset s - baseOffset s)) pos = (None, ix) \<and>
           off = nextOffset s \<and>
           s' = s\<lparr>store := st, index := ix, nextOffset := nextOffset s + 1\<rparr>"
  using assms
  by (auto simp: segment_Append_def Let_def split: sum.splits prod.splits option.splits)

lemma segment_Append_Inl:
  assumes "segment_Append M s r = (Inl e, s')"
  shows "nextOffset s' = nextOffset s \<and> baseOffset s' = baseOffset s \<and> config s' = config s"
  using assms
  by (auto simp: segment_Append_def Let_def split: sum.splits prod.splits option.splits)

lemma segment_Append_success:
  assumes "M (r\<lparr>Offset := nextOffset s\<rparr>) = Inr p"
    and "store_Append (store s) p = (Inr (n, pos), st)"
    and "index_Write (index s) (ucast (nextOffset s - baseOffset s)) pos = (None, ix)"
  shows "segment_Append M s r =
           (Inr (nextOffset s), s\<lparr>store := st, index := ix, nextOffset := nextOffset s + 1\<rparr>)"
  using assms by (simp add: segment_Append_def Let_def)

lemma appends_offsets:
  assumes "appends M s rs = Inr (offs, s2)"
  shows "offs = map (\<lambda>k. nextOffset s + of_nat k) [0..<length rs] \<and>
         nextOffset s2 = nextOffset s + of_nat (length rs) \<and> baseOffset s2 = baseOffset s"
  using assms
proof (induction rs arbitrary: s offs)
  case Nil
  then show ?case by simp
next
  case (Cons r rs)
  from Cons.prems obtain off s1 offs' where
    a: "segment_Append M s r = (Inr off, s1)" and
    b: "appends M s1 rs = Inr (offs', s2)" and o: "offs = off # offs'"
    by (auto split: sum.splits prod.splits)
  from segment_Append_Inr [OF a] have s1: "off = nextOffset s" "nextOffset s1 = nextOffset s + 1"
     "baseOffset s1 = baseOffset s"
    by auto
  from Cons.IH [OF b] have
    ih: "offs' = map (\<lambda>k. nextOffset s1 + of_nat k) [0..<length rs]"
    "nextOffset s2 = nextOffset s1 + of_nat (length rs)" "baseOffset s2 = baseOffset s1"
    by auto
  have "map (\<lambda>k. nextOffset s + of_nat k) [0..<length (r # rs)]
        = nextOffset s # map (\<lambda>k. nextOffset s + of_nat (Suc k)) [0..<length rs]"
    by (simp add: upt_conv_Cons map_Suc_upt [symmetric] del: upt_Suc)
  then show ?case using o s1 ih by (simp add: add.assoc add.commute add.left_commute)
qed


lemma names_differ [simp]: "x @ ''.store'' \<noteq> x @ ''.index''" "x @ ''.index'' \<noteq> x @ ''.store''"
  by simp_all

lemma newSegment_fresh_eq:
  assumes "fresh d B" and "\<not> sint (MaxIndexBytes c) < 0" and "MaxIndexBytes c \<noteq> 0"
  shows "newSegment d B c =
           Inr (\<lparr>store = \<lparr>File = [], buf = [], werr = None, store_size = 0,
                          store_name = decimal (unat B) @ ''.store''\<rparr>,
                 index = \<lparr>mmap = replicate (unat (MaxIndexBytes c)) 0, index_size = 0,
                          index_name = decimal (unat B) @ ''.index''\<rparr>,
                 baseOffset = B, nextOffset = B, config = c\<rparr>,
                d(decimal (unat B) @ ''.store'' \<mapsto> [],
                  decimal (unat B) @ ''.index'' \<mapsto> replicate (unat (MaxIndexBytes c)) 0))"
proof -
  have nz: "unat (MaxIndexBytes c) \<noteq> 0" using assms(3) by (simp add: unat_eq_zero)
  show ?thesis
    using assms(1,2) nz
    by (simp add: newSegment_def fresh_def OpenFile_def newStore_def newIndex_def Truncate_def
        Let_def index_Read_def)
qed

lemma newSegment_fresh:
  assumes "fresh d B" and "newSegment d B c = Inr (s, d')"
  shows "seg_holds s [] \<and> baseOffset s = B \<and> config s = c \<and> nextOffset s = B"
proof -
  have a: "\<not> sint (MaxIndexBytes c) < 0 \<and> MaxIndexBytes c \<noteq> 0"
  proof (rule ccontr)
    assume "\<not> ?thesis"
    then have "newSegment d B c = Inl IoError"
      using assms(1)
      by (auto simp: newSegment_def fresh_def OpenFile_def newStore_def newIndex_def
          Truncate_def Let_def)
    then show False using assms(2) by simp
  qed
  then have b: "unat (MaxIndexBytes c) < 9223372036854775808" "0 < unat (MaxIndexBytes c)"
    by (simp_all add: sint_negative_iff unat_gt_0)
  from newSegment_fresh_eq [OF assms(1)] a assms(2) b
  show ?thesis by (auto simp: seg_holds_def)
qed

lemma fresh_empty: "fresh Map.empty B"
  by (simp add: fresh_def)

lemma decimal_16: "decimal 16 = ''16''"
  by code_simp

lemma demo_newSegment: "newSegment Map.empty 16 demo_config = Inr (demo_segment, demo_dir)"
  using newSegment_fresh_eq [OF fresh_empty, of demo_config 16]
  by (simp add: demo_config_def demo_segment_def demo_dir_def decimal_16)

text \<open>
  C2. \<open>Append\<close> on a segment returns the value \<open>nextOffset\<close> had before the call and
  advances \<open>nextOffset\<close> by one exactly when the record is encoded, the store append succeeds
  and the index write succeeds; when it returns an error \<open>nextOffset\<close> is unchanged. Hence
  successive successful appends on a fresh segment with base offset \<open>B\<close> return
  \<open>B, B+1, B+2, \<dots>\<close> (in \<open>uint64\<close> arithmetic).
\<close>

theorem segment_Append_offsets:
  "(segment_Append M s r = (Inr off, s') \<longrightarrow>
      off = nextOffset s \<and> nextOffset s' = nextOffset s + 1) \<and>
   (segment_Append M s r = (Inl e, s') \<longrightarrow> nextOffset s' = nextOffset s) \<and>
   ((\<exists>off. fst (segment_Append M s r) = Inr off) \<longleftrightarrow>
      (\<exists>p n pos st ix.
          M (r\<lparr>Offset := nextOffset s\<rparr>) = Inr p \<and>
          store_Append (store s) p = (Inr (n, pos), st) \<and>
          index_Write (index s) (ucast (nextOffset s - baseOffset s)) pos = (None, ix))) \<and>
   (fresh d B \<and> newSegment d B c = Inr (s0, d') \<and> appends M s0 rs = Inr (offs, s2) \<longrightarrow>
      offs = map (\<lambda>k. B + of_nat k) [0..<length rs] \<and>
      nextOffset s2 = B + of_nat (length rs))"
proof -
  have 1: "off = nextOffset s \<and> nextOffset s' = nextOffset s + 1"
    if "segment_Append M s r = (Inr off, s')"
    using segment_Append_Inr [OF that] by auto
  have 2: "nextOffset s' = nextOffset s" if "segment_Append M s r = (Inl e, s')"
    using segment_Append_Inl [OF that] by simp
  have 3: "(\<exists>off. fst (segment_Append M s r) = Inr off) \<longleftrightarrow>
      (\<exists>p n pos st ix.
          M (r\<lparr>Offset := nextOffset s\<rparr>) = Inr p \<and>
          store_Append (store s) p = (Inr (n, pos), st) \<and>
          index_Write (index s) (ucast (nextOffset s - baseOffset s)) pos = (None, ix))"
    (is "?L \<longleftrightarrow> ?R")
  proof
    assume ?L
    then obtain off where "fst (segment_Append M s r) = Inr off" ..
    then have "segment_Append M s r = (Inr off, snd (segment_Append M s r))"
      by (metis prod.collapse)
    from segment_Append_Inr [OF this] show ?R by blast
  next
    assume ?R
    then show ?L using segment_Append_success [where M = M and r = r and s = s] by fastforce
  qed
  have 4: "offs = map (\<lambda>k. B + of_nat k) [0..<length rs] \<and>
      nextOffset s2 = B + of_nat (length rs)"
    if "fresh d B \<and> newSegment d B c = Inr (s0, d') \<and> appends M s0 rs = Inr (offs, s2)"
    using that newSegment_fresh [of d B c s0 d'] appends_offsets [of M s0 rs offs s2] by simp
  from 1 2 3 4 show ?thesis by blast
qed

theorem segment_Append_offsets_witness:
  "map_sum id fst
     (appends plain_Marshal demo_segment
        [\<lparr>Value = [104, 105], Offset = 0\<rparr>, \<lparr>Value = [], Offset = 7\<rparr>, \<lparr>Value = [1], Offset = 0\<rparr>])
   = Inr [16, 17, 18] \<and>
   fst (segment_Append plain_Marshal
          (demo_segment\<lparr>index := (index demo_segment)\<lparr>index_size := 36\<rparr>\<rparr>)
          \<lparr>Value = [1], Offset = 0\<rparr>) = Inl EOF"
proof -
  let ?rs = "[\<lparr>Value = [104, 105], Offset = 0\<rparr>, \<lparr>Value = [], Offset = 7\<rparr>, \<lparr>Value = [1], Offset = 0\<rparr>]"
  have "\<not> isl (appends plain_Marshal demo_segment ?rs)" by code_simp
  then obtain offs s2 where a: "appends plain_Marshal demo_segment ?rs = Inr (offs, s2)"
    by (cases "appends plain_Marshal demo_segment ?rs") auto
  have u: "[0..<3] = [0, 1, 2]" by code_simp
  from segment_Append_offsets [of plain_Marshal demo_segment _ _ _ _ Map.empty 16 demo_config
      demo_segment demo_dir ?rs offs s2] a fresh_empty demo_newSegment
  have "offs = [16, 17, 18]" by (simp add: u)
  moreover have "fst (segment_Append plain_Marshal
          (demo_segment\<lparr>index := (index demo_segment)\<lparr>index_size := 36\<rparr>\<rparr>)
          \<lparr>Value = [1], Offset = 0\<rparr>) = Inl EOF"
    by code_simp
  ultimately show ?thesis using a by simp
qed

subsection \<open>Saturation\<close>

lemma index_Write_size_mono:
  "unat (index_size i) \<le> unat (index_size (snd (index_Write i off pos)))"
  by (auto simp: index_Write_def put_def split: if_splits)

lemma store_Append_store:
  "snd (store_Append st p) = st \<or>
   snd (store_Append st p)
     = st\<lparr>buf := buf st @ frame p, store_size := store_size st + (of_nat (length p) + 8)\<rparr>"
  by (cases "werr st") (simp_all add: store_Append_ok store_Append_err)

lemma store_Read_store:
  "snd (store_Read st pos) = st \<or> snd (store_Read st pos) = st\<lparr>File := File st @ buf st, buf := []\<rparr>"
  by (cases "werr st")
    (auto simp: store_Read_def buf_Flush_def split: sum.splits if_splits)

lemma segment_Append_parts:
  "config (snd (segment_Append M s r)) = config s \<and>
   (\<exists>p. store (snd (segment_Append M s r)) = store s \<or>
        store (snd (segment_Append M s r)) = snd (store_Append (store s) p)) \<and>
   (index (snd (segment_Append M s r)) = index s \<or>
    (\<exists>off pos. index (snd (segment_Append M s r)) = snd (index_Write (index s) off pos)))"
proof (cases "M (r\<lparr>Offset := nextOffset s\<rparr>)")
  case (Inl e)
  then show ?thesis by (simp add: segment_Append_def Let_def)
next
  case (Inr p)
  obtain res st where sa: "store_Append (store s) p = (res, st)" by (cases "store_Append (store s) p")
  show ?thesis
  proof (cases res)
    case (Inl e)
    have st: "st = snd (store_Append (store s) p)" using sa by simp
    have "config (snd (segment_Append M s r)) = config s \<and>
          store (snd (segment_Append M s r)) = st \<and> index (snd (segment_Append M s r)) = index s"
      using Inr sa Inl by (simp add: segment_Append_def Let_def)
    then show ?thesis using st by blast
  next
    case r: (Inr np)
    obtain n pos where np: "np = (n, pos)" by (cases np)
    obtain e ix where iw: "index_Write (index s) (ucast (nextOffset s - baseOffset s)) pos = (e, ix)"
      by (cases "index_Write (index s) (ucast (nextOffset s - baseOffset s)) pos")
    have st: "st = snd (store_Append (store s) p)" using sa by simp
    have ix: "ix = snd (index_Write (index s) (ucast (nextOffset s - baseOffset s)) pos)"
      using iw by simp
    have "config (snd (segment_Append M s r)) = config s \<and>
          store (snd (segment_Append M s r)) = st \<and> index (snd (segment_Append M s r)) = ix"
      using Inr sa r np iw by (cases e) (simp_all add: segment_Append_def Let_def)
    then show ?thesis using st ix by blast
  qed
qed

lemma segment_Read_parts:
  "config (snd (segment_Read U s a)) = config s \<and>
   index (snd (segment_Read U s a)) = index s \<and>
   (store (snd (segment_Read U s a)) = store s \<or>
    (\<exists>pos. store (snd (segment_Read U s a)) = snd (store_Read (store s) pos)))"
proof (cases "index_Read (index s) (a - baseOffset s)")
  case (Inl e)
  then show ?thesis by (simp add: segment_Read_def)
next
  case (Inr op)
  obtain out pos where op: "op = (out, pos)" by (cases op)
  obtain res st where sr: "store_Read (store s) pos = (res, st)"
    by (cases "store_Read (store s) pos")
  have st: "st = snd (store_Read (store s) pos)" using sr by simp
  have "config (snd (segment_Read U s a)) = config s \<and>
        index (snd (segment_Read U s a)) = index s \<and> store (snd (segment_Read U s a)) = st"
    using Inr op sr by (cases res) (simp_all add: segment_Read_def)
  then show ?thesis using st by blast
qed

lemma step_parts:
  "config (step M U s x) = config s \<and>
   unat (index_size (index s)) \<le> unat (index_size (index (step M U s x))) \<and>
   held s \<le> held (step M U s x) \<and>
   (unat (store_size (store s)) \<le> held s \<and> held (step M U s x) < 2 ^ 64 \<longrightarrow>
      unat (store_size (store s)) \<le> unat (store_size (store (step M U s x))) \<and>
      unat (store_size (store (step M U s x))) \<le> held (step M U s x))"
proof (cases x)
  case (OpAppend r)
  let ?s' = "snd (segment_Append M s r)"
  from segment_Append_parts [of M s r] obtain p where
    c: "config ?s' = config s" and
    st: "store ?s' = store s \<or> store ?s' = snd (store_Append (store s) p)" and
    ix: "index ?s' = index s \<or> (\<exists>off pos. index ?s' = snd (index_Write (index s) off pos))"
    by blast
  have i: "unat (index_size (index s)) \<le> unat (index_size (index ?s'))"
    using ix index_Write_size_mono by auto
  from st store_Append_store [of "store s" p]
  consider "store ?s' = store s"
    | "store ?s' = (store s)\<lparr>buf := buf (store s) @ frame p,
           store_size := store_size (store s) + (of_nat (length p) + 8)\<rparr>"
    by auto
  then have "held s \<le> held ?s' \<and>
     (unat (store_size (store s)) \<le> held s \<and> held ?s' < 2 ^ 64 \<longrightarrow>
      unat (store_size (store s)) \<le> unat (store_size (store ?s')) \<and>
      unat (store_size (store ?s')) \<le> held ?s')"
  proof cases
    case 1
    then show ?thesis by (simp add: held_def)
  next
    case 2
    have h: "held ?s' = held s + (length p + 8)" by (simp add: held_def 2)
    have "unat (store_size (store s) + of_nat (length p + 8))
            = unat (store_size (store s)) + (length p + 8)"
      if "unat (store_size (store s)) \<le> held s" "held ?s' < 2 ^ 64"
      using that h by (intro unat_add_small) simp
    then show ?thesis using h by (auto simp: 2)
  qed
  then show ?thesis using c i OpAppend by simp
next
  case (OpRead a)
  let ?s' = "snd (segment_Read U s a)"
  from segment_Read_parts [of U s a] obtain pos where
    c: "config ?s' = config s" "index ?s' = index s" and
    st: "store ?s' = store s \<or> store ?s' = snd (store_Read (store s) pos)"
    by blast
  from st store_Read_store [of "store s" pos]
  have "store ?s' = store s \<or> store ?s' = (store s)\<lparr>File := File (store s) @ buf (store s), buf := []\<rparr>"
    by auto
  then have "held ?s' = held s \<and> store_size (store ?s') = store_size (store s)"
    by (auto simp: held_def)
  then show ?thesis using c OpRead by simp
qed

lemma run_parts:
  "config (run M U s ops) = config s \<and>
   unat (index_size (index s)) \<le> unat (index_size (index (run M U s ops))) \<and>
   held s \<le> held (run M U s ops) \<and>
   (unat (store_size (store s)) \<le> held s \<and> held (run M U s ops) < 2 ^ 64 \<longrightarrow>
      unat (store_size (store s)) \<le> unat (store_size (store (run M U s ops))))"
proof (induction ops arbitrary: s)
  case Nil
  then show ?case by (simp add: run_def)
next
  case (Cons x ops)
  have r: "run M U s (x # ops) = run M U (step M U s x) ops" by (simp add: run_def)
  from step_parts [of M U s x] Cons.IH [of "step M U s x"]
  show ?case unfolding r by (auto intro: order_trans)
qed

text \<open>
  C7. \<open>IsMaxed\<close> returns true exactly when \<open>store.size \<ge> MaxStoreBytes\<close> or
  \<open>index.size \<ge> MaxIndexBytes\<close>. Once it is true it stays true after every run of
  \<open>Append\<close> and \<open>Read\<close> calls, failed ones included: no operation decreases either size,
  as long as the store holds fewer than \<open>2^64\<close> bytes, so that \<open>store.size\<close> does not wrap
  around.
\<close>

theorem segment_IsMaxed_saturates:
  "(segment_IsMaxed s \<longleftrightarrow>
      unat (MaxStoreBytes (config s)) \<le> unat (store_size (store s)) \<or>
      unat (MaxIndexBytes (config s)) \<le> unat (index_size (index s))) \<and>
   (segment_IsMaxed s \<and> unat (store_size (store s)) \<le> held s \<and>
    held (run M U s ops) < 2 ^ 64 \<longrightarrow> segment_IsMaxed (run M U s ops))"
proof -
  have 1: "segment_IsMaxed s \<longleftrightarrow>
      unat (MaxStoreBytes (config s)) \<le> unat (store_size (store s)) \<or>
      unat (MaxIndexBytes (config s)) \<le> unat (index_size (index s))" for s
    by (simp add: segment_IsMaxed_def word_le_nat_alt)
  have 2: "segment_IsMaxed (run M U s ops)"
    if "segment_IsMaxed s" "unat (store_size (store s)) \<le> held s" "held (run M U s ops) < 2 ^ 64"
    using that run_parts [of M U s ops] unfolding 1 by (auto intro: order_trans)
  from 1 [of s] 2 show ?thesis by blast
qed

theorem segment_IsMaxed_saturates_witness:
  "segment_IsMaxed
     (run plain_Marshal plain_Unmarshal demo_segment
        [OpAppend \<lparr>Value = [97], Offset = 0\<rparr>, OpAppend \<lparr>Value = [98, 98], Offset = 0\<rparr>,
         OpAppend \<lparr>Value = [99, 99, 99], Offset = 0\<rparr>]) \<and>
   segment_IsMaxed
     (run plain_Marshal plain_Unmarshal
        (run plain_Marshal plain_Unmarshal demo_segment
           [OpAppend \<lparr>Value = [97], Offset = 0\<rparr>, OpAppend \<lparr>Value = [98, 98], Offset = 0\<rparr>,
            OpAppend \<lparr>Value = [99, 99, 99], Offset = 0\<rparr>])
        [OpAppend \<lparr>Value = [100], Offset = 0\<rparr>, OpRead 17])"
proof -
  let ?s = "run plain_Marshal plain_Unmarshal demo_segment
        [OpAppend \<lparr>Value = [97], Offset = 0\<rparr>, OpAppend \<lparr>Value = [98, 98], Offset = 0\<rparr>,
         OpAppend \<lparr>Value = [99, 99, 99], Offset = 0\<rparr>]"
  let ?ops = "[OpAppend \<lparr>Value = [100], Offset = 0\<rparr>, OpRead 17]"
  have m: "segment_IsMaxed ?s" by code_simp
  have h: "unat (store_size (store ?s)) \<le> held ?s" by code_simp
  have "held (run plain_Marshal plain_Unmarshal ?s ?ops) = 71" by code_simp
  then have b: "held (run plain_Marshal plain_Unmarshal ?s ?ops) < 2 ^ 64" by simp
  from segment_IsMaxed_saturates [of ?s plain_Marshal plain_Unmarshal ?ops] m h b
  show ?thesis by blast
qed

subsection \<open>What a segment holds\<close>

lemma ucast_of_nat_down: "(ucast (of_nat k :: u64) :: u32) = of_nat k"
proof -
  have "unat (ucast (of_nat k :: u64) :: u32) = unat (of_nat k :: u32)"
    by (simp add: unsigned_ucast_eq unat_of_nat take_bit_eq_mod mod_mod_cancel)
  then show ?thesis by (simp only: word_unat_eq_iff)
qed

lemma take_drop_take: "a + n \<le> k \<Longrightarrow> take n (drop a (take k xs)) = take n (drop a xs)"
  by (simp add: drop_take min_def)

lemma frame_at:
  assumes "i < length ps"
  shows "drop (position ps i) (concat (map frame ps))
           = frame (ps ! i) @ concat (map frame (drop (Suc i) ps))"
proof -
  have "concat (map frame ps)
          = concat (map frame (take i ps)) @ concat (map frame (drop i ps))"
    by (metis append_take_drop_id concat_append map_append)
  moreover have "drop i ps = ps ! i # drop (Suc i) ps"
    using assms by (simp add: Cons_nth_drop_Suc)
  ultimately show ?thesis by (simp add: position_def)
qed

lemma position_snoc:
  "j \<le> length ps \<Longrightarrow> position (ps @ [p]) j = position ps j"
  by (simp add: position_def)

lemma position_all: "position ps (length ps) = length (concat (map frame ps))"
  by (simp add: position_def)

lemma seg_holds_index_inv: "seg_holds s ps \<Longrightarrow> index_inv (index s)"
proof -
  assume a: "seg_holds s ps"
  then have "unat (of_nat (12 * length ps) :: u64) = 12 * length ps"
    by (intro unat_of_nat_u64) (simp add: seg_holds_def)
  then show ?thesis using a by (simp add: seg_holds_def index_inv_def del: of_nat_mult)
qed

lemma seg_holds_index_size: "seg_holds s ps \<Longrightarrow> unat (index_size (index s)) = 12 * length ps"
proof -
  assume a: "seg_holds s ps"
  then have "unat (of_nat (12 * length ps) :: u64) = 12 * length ps"
    by (intro unat_of_nat_u64) (simp add: seg_holds_def)
  then show ?thesis using a by (simp add: seg_holds_def del: of_nat_mult)
qed

lemma seg_holds_Append:
  assumes h: "seg_holds s ps"
    and m: "M (r\<lparr>Offset := nextOffset s\<rparr>) = Inr p"
    and room: "12 * length ps + 12 \<le> length (mmap (index s))"
  shows "\<exists>s'. segment_Append M s r = (Inr (nextOffset s), s') \<and> seg_holds s' (ps @ [p]) \<and>
              baseOffset s' = baseOffset s \<and> config s' = config s \<and>
              length (mmap (index s')) = length (mmap (index s))"
proof -
  let ?k = "length ps"
  let ?i = "index s"
  let ?st = "(store s)\<lparr>buf := buf (store s) @ frame p,
                        store_size := store_size (store s) + (of_nat (length p) + 8)\<rparr>"
  let ?off = "ucast (nextOffset s - baseOffset s) :: u32"
  let ?m' = "take (12 * ?k) (mmap ?i) @ PutUint32 ?off @ PutUint64 (store_size (store s))
               @ drop (12 * ?k + 12) (mmap ?i)"
  let ?ix = "?i\<lparr>mmap := ?m', index_size := index_size ?i + entWidth\<rparr>"
  let ?s' = "s\<lparr>store := ?st, index := ?ix, nextOffset := nextOffset s + 1\<rparr>"
  have w: "werr (store s) = None" using h by (simp add: seg_holds_def)
  have sa: "store_Append (store s) p = (Inr (of_nat (length p) + 8, store_size (store s)), ?st)"
    by (rule store_Append_ok [OF w])
  have inv: "index_inv ?i" by (rule seg_holds_index_inv [OF h])
  have sz: "unat (index_size ?i) = 12 * ?k" by (rule seg_holds_index_size [OF h])
  have iw: "index_Write ?i ?off (store_size (store s)) = (None, ?ix)"
    using index_Write_room [OF inv, of ?off "store_size (store s)"] room by (simp add: sz)
  have ap: "segment_Append M s r = (Inr (nextOffset s), ?s')"
    using segment_Append_success [where M = M and s = s and r = r, OF m sa iw] .
  have off: "?off = of_nat ?k"
    using h by (simp add: seg_holds_def ucast_of_nat_down)
  have pos: "store_size (store s) = of_nat (position (ps @ [p]) ?k)"
    using h by (simp add: seg_holds_def position_snoc position_all)
  have ent: "take 12 (drop (12 * j) ?m')
               = PutUint32 (of_nat j) @ PutUint64 (of_nat (position (ps @ [p]) j))"
    if "j < length (ps @ [p])" for j
  proof (cases "j < ?k")
    case True
    then have b: "12 * j + 12 \<le> 12 * ?k" by simp
    have "take 12 (drop (12 * j) ?m') = take 12 (drop (12 * j) (take (12 * ?k) (mmap ?i)))"
      using b room by simp
    also have "\<dots> = take 12 (drop (12 * j) (mmap ?i))"
      using b by (intro take_drop_take) simp
    also have "\<dots> = PutUint32 (of_nat j) @ PutUint64 (of_nat (position ps j))"
      using h True by (simp add: seg_holds_def)
    finally show ?thesis using True by (simp add: position_snoc)
  next
    case False
    then have j: "j = ?k" using that by simp
    have "take 12 (drop (12 * ?k) ?m') = PutUint32 ?off @ PutUint64 (store_size (store s))"
      using room by simp
    then show ?thesis unfolding j off pos by simp
  qed
  have hold: "seg_holds ?s' (ps @ [p])"
    unfolding seg_holds_def
  proof (intro conjI)
    show "\<forall>j<length (ps @ [p]). take 12 (drop (12 * j) (mmap (index ?s')))
            = PutUint32 (of_nat j) @ PutUint64 (of_nat (position (ps @ [p]) j))"
      using ent by simp
  qed (use h room in \<open>simp_all add: seg_holds_def entWidth_def offWidth_def posWidth_def\<close>)
  show ?thesis using ap hold room by simp
qed

lemma entry_of_bytes:
  assumes "take 12 (drop (12 * t) m) = PutUint32 a @ PutUint64 b"
  shows "entry m t = Inr (a, b)"
proof -
  have "take 4 (drop (12 * t) m) = take 4 (take 12 (drop (12 * t) m))" by simp
  then have 1: "take 4 (drop (12 * t) m) = PutUint32 a" by (simp add: assms)
  have "take 8 (drop (12 * t + 4) m) = drop 4 (take 12 (drop (12 * t) m))"
    by (simp add: drop_take add.commute)
  then have 2: "take 8 (drop (12 * t + 4) m) = PutUint64 b" by (simp add: assms)
  show ?thesis
    using Uint32_Put [of a "[]"] Uint64_Put [of b "[]"] by (simp add: entry_def 1 2)
qed

lemma position_bound:
  assumes "i < length ps"
  shows "position ps i + 8 + length (ps ! i) \<le> length (concat (map frame ps))"
proof -
  have "length (drop (position ps i) (concat (map frame ps))) \<ge> 8 + length (ps ! i)"
    unfolding frame_at [OF assms] by simp
  then show ?thesis by simp
qed

lemma store_Read_frame:
  assumes w: "werr st = None"
    and c: "File st @ buf st = concat (map frame ps)"
    and i: "i < length ps"
    and b: "length (concat (map frame ps)) < 9223372036854775808"
  shows "store_Read st (of_nat (position ps i))
           = (Inr (ps ! i), st\<lparr>File := File st @ buf st, buf := []\<rparr>)"
proof -
  let ?c = "concat (map frame ps)"
  let ?pos = "position ps i"
  let ?p = "ps ! i"
  note pb = position_bound [OF i]
  have fl: "buf_Flush st = (None, st\<lparr>File := File st @ buf st, buf := []\<rparr>)"
    using w by (simp add: buf_Flush_def)
  have u1: "unat (of_nat ?pos :: u64) = ?pos"
    using pb b by (intro unat_of_nat_u64) linarith
  have s1: "sint (of_nat ?pos :: u64) = int ?pos"
    using pb b by (subst sint_small) (simp_all add: u1)
  have dr: "drop ?pos ?c = PutUint64 (of_nat (length ?p)) @ ?p @ concat (map frame (drop (Suc i) ps))"
    using frame_at [OF i] by (simp add: frame_def)
  have r1: "ReadAt ?c 8 (of_nat ?pos) = Inr (PutUint64 (of_nat (length ?p)))"
    using pb by (simp add: ReadAt_def s1 dr)
  have u2: "unat (of_nat (length ?p) :: u64) = length ?p"
    using pb b by (intro unat_of_nat_u64) linarith
  have s2: "sint (of_nat (length ?p) :: u64) = int (length ?p)"
    using pb b by (subst sint_small) (simp_all add: u2)
  have u3: "unat (of_nat ?pos + 8 :: u64) = ?pos + 8"
    using unat_add_small [of "of_nat ?pos" 8] pb b by (simp add: u1)
  have s3: "sint (of_nat ?pos + 8 :: u64) = int (?pos + 8)"
    using pb b by (subst sint_small) (simp_all add: u3)
  have "drop (?pos + 8) ?c = drop 8 (drop ?pos ?c)" by (simp add: add.commute)
  then have dr2: "drop (?pos + 8) ?c = ?p @ concat (map frame (drop (Suc i) ps))"
    by (simp add: dr)
  have n3: "nat (sint (of_nat ?pos + 8 :: u64)) = ?pos + 8"
    unfolding s3 by (rule nat_int)
  have n3': "\<not> sint (of_nat ?pos + 8 :: u64) < 0"
    unfolding s3 by simp
  have r2: "ReadAt ?c (length ?p) (of_nat ?pos + 8) = Inr ?p"
    using pb by (simp add: ReadAt_def n3 n3' dr2)
  show ?thesis
    using Uint64_Put [of "of_nat (length ?p)" "[]"]
    by (simp add: store_Read_def fl c r1 s2 u2 r2)
qed


lemma seg_holds_Read:
  assumes h: "seg_holds s ps" and i: "i < length ps"
    and b: "length (concat (map frame ps)) < 9223372036854775808"
  shows "segment_Read U s (baseOffset s + of_nat i)
           = (U (ps ! (i mod 4294967296)),
              s\<lparr>store := (store s)\<lparr>File := File (store s) @ buf (store s), buf := []\<rparr>\<rparr>)"
proof -
  let ?t = "i mod 4294967296"
  have k: "12 * length ps < 9223372036854775808" using h by (simp add: seg_holds_def)
  have t: "?t < length ps" using i by (meson le_less_trans mod_less_eq_dividend)
  have ne: "(of_nat i :: u64) \<noteq> - 1" using i k by (intro of_nat_ne_m1) simp
  have ui: "unat (of_nat i :: u64) = i" using i k by (intro unat_of_nat_u64) simp
  have sl: "unat (index_slot (index s) (of_nat i)) = ?t"
    by (simp add: index_slot_plain [OF ne] unat_ucast_down ui)
  have "index_size (index s) = of_nat (12 * length ps)"
    "12 * length ps \<le> length (mmap (index s))" "length (mmap (index s)) < 9223372036854775808"
    using h by (simp_all add: seg_holds_def)
  from index_Read_slot_cases(2) [OF this, of "of_nat i"] t
  have "index_Read (index s) (of_nat i) = entry (mmap (index s)) ?t" by (simp add: sl)
  moreover have "entry (mmap (index s)) ?t = Inr (of_nat ?t, of_nat (position ps ?t))"
    using h t by (intro entry_of_bytes) (simp add: seg_holds_def)
  ultimately have ir: "index_Read (index s) (of_nat i)
                         = Inr (of_nat ?t, of_nat (position ps ?t))"
    by simp
  have sr: "store_Read (store s) (of_nat (position ps ?t))
              = (Inr (ps ! ?t), (store s)\<lparr>File := File (store s) @ buf (store s), buf := []\<rparr>)"
    using h by (intro store_Read_frame [OF _ _ t b]) (simp_all add: seg_holds_def)
  show ?thesis by (simp add: segment_Read_def ir sr)
qed

lemma seg_holds_flush:
  "seg_holds s ps \<Longrightarrow>
   seg_holds (s\<lparr>store := (store s)\<lparr>File := File (store s) @ buf (store s), buf := []\<rparr>\<rparr>) ps"
  by (auto simp: seg_holds_def)

lemma seg_holds_Append_Inr:
  assumes h: "seg_holds s ps" and a: "segment_Append M s r = (Inr off, s')"
  shows "\<exists>p. M (r\<lparr>Offset := nextOffset s\<rparr>) = Inr p \<and> seg_holds s' (ps @ [p]) \<and>
             off = nextOffset s \<and> baseOffset s' = baseOffset s \<and> config s' = config s \<and>
             length (mmap (index s')) = length (mmap (index s))"
proof -
  from segment_Append_Inr [OF a] obtain p n pos st ix where
    m: "M (r\<lparr>Offset := nextOffset s\<rparr>) = Inr p" and
    iw: "index_Write (index s) (ucast (nextOffset s - baseOffset s)) pos = (None, ix)"
    by blast
  have room: "12 * length ps + 12 \<le> length (mmap (index s))"
  proof (rule ccontr)
    assume "\<not> ?thesis"
    then have "length (mmap (index s)) < unat (index_size (index s)) + 12"
      by (simp add: seg_holds_index_size [OF h])
    from index_Write_full [OF seg_holds_index_inv [OF h] this] iw show False by simp
  qed
  from seg_holds_Append [where M = M and r = r, OF h m room] a m show ?thesis by auto
qed

lemma seg_holds_appends:
  assumes "seg_holds s ps" and "appends M s rs = Inr (offs, s2)"
  shows "\<exists>qs. length qs = length rs \<and>
              (\<forall>i<length rs. M ((rs ! i)\<lparr>Offset := nextOffset s + of_nat i\<rparr>) = Inr (qs ! i)) \<and>
              seg_holds s2 (ps @ qs) \<and> baseOffset s2 = baseOffset s \<and> config s2 = config s \<and>
              length (mmap (index s2)) = length (mmap (index s))"
  using assms
proof (induction rs arbitrary: s ps offs)
  case Nil
  then show ?case by simp
next
  case (Cons r rs)
  from Cons.prems(2) obtain off s1 offs' where
    a: "segment_Append M s r = (Inr off, s1)" and b: "appends M s1 rs = Inr (offs', s2)"
    by (auto split: sum.splits prod.splits)
  from seg_holds_Append_Inr [OF Cons.prems(1) a] obtain p where
    p: "M (r\<lparr>Offset := nextOffset s\<rparr>) = Inr p" "seg_holds s1 (ps @ [p])"
    "baseOffset s1 = baseOffset s" "config s1 = config s"
    "length (mmap (index s1)) = length (mmap (index s))"
    by blast
  have n1: "nextOffset s1 = nextOffset s + 1"
    using segment_Append_Inr [OF a] by auto
  from Cons.IH [OF p(2) b] obtain qs where
    q: "length qs = length rs"
    "\<forall>i<length rs. M ((rs ! i)\<lparr>Offset := nextOffset s1 + of_nat i\<rparr>) = Inr (qs ! i)"
    "seg_holds s2 ((ps @ [p]) @ qs)" "baseOffset s2 = baseOffset s1" "config s2 = config s1"
    "length (mmap (index s2)) = length (mmap (index s1))"
    by blast
  have "M (((r # rs) ! i)\<lparr>Offset := nextOffset s + of_nat i\<rparr>) = Inr ((p # qs) ! i)"
    if "i < length (r # rs)" for i
  proof (cases i)
    case 0
    then show ?thesis using p(1) by simp
  next
    case (Suc j)
    then have "j < length rs" using that by simp
    with q(2) have "M ((rs ! j)\<lparr>Offset := nextOffset s1 + of_nat j\<rparr>) = Inr (qs ! j)" by simp
    then show ?thesis using Suc n1 by (simp add: add.assoc add.commute add.left_commute)
  qed
  then show ?case
    using q p by (intro exI [of _ "p # qs"]) simp
qed

lemma appends_succeed:
  assumes "seg_holds s ps"
    and "\<forall>i<length rs. \<exists>p. M ((rs ! i)\<lparr>Offset := nextOffset s + of_nat i\<rparr>) = Inr p"
    and "12 * (length ps + length rs) \<le> length (mmap (index s))"
  shows "\<exists>offs s2. appends M s rs = Inr (offs, s2)"
  using assms
proof (induction rs arbitrary: s ps)
  case Nil
  then show ?case by simp
next
  case (Cons r rs)
  from Cons.prems(2) obtain p where p: "M (r\<lparr>Offset := nextOffset s\<rparr>) = Inr p"
    by fastforce
  have room: "12 * length ps + 12 \<le> length (mmap (index s))" using Cons.prems(3) by simp
  from seg_holds_Append [where M = M and r = r, OF Cons.prems(1) p room] obtain s1 where
    s1: "segment_Append M s r = (Inr (nextOffset s), s1)" "seg_holds s1 (ps @ [p])"
    "length (mmap (index s1)) = length (mmap (index s))"
    by blast
  have n1: "nextOffset s1 = nextOffset s + 1"
    using segment_Append_Inr [OF s1(1)] by auto
  have "\<exists>p. M ((rs ! i)\<lparr>Offset := nextOffset s1 + of_nat i\<rparr>) = Inr p" if "i < length rs" for i
  proof -
    from Cons.prems(2) that
    have "\<exists>p. M (((r # rs) ! Suc i)\<lparr>Offset := nextOffset s + of_nat (Suc i)\<rparr>) = Inr p"
      by (metis Suc_less_eq length_Cons)
    then show ?thesis by (simp add: n1 add.assoc add.commute add.left_commute)
  qed
  moreover have "12 * (length (ps @ [p]) + length rs) \<le> length (mmap (index s1))"
    using Cons.prems(3) s1(3) by simp
  ultimately obtain offs s2 where "appends M s1 rs = Inr (offs, s2)"
    using Cons.IH [OF s1(2)] by blast
  then show ?case using s1(1) by simp
qed

subsection \<open>Reading back what was appended\<close>

lemma plain_codec_ok: "codec_ok plain_Marshal plain_Unmarshal"
proof -
  have "plain_Unmarshal (PutUint64 (Offset r) @ Value r) = Inr r" for r
    using Uint64_Put [of "Offset r" "Value r"] by (simp add: plain_Unmarshal_def)
  then show ?thesis by (auto simp: codec_ok_def plain_Marshal_def)
qed

lemma seg_holds_held: "seg_holds s ps \<Longrightarrow> held s = length (concat (map frame ps))"
  by (simp add: seg_holds_def held_def flip: length_append)

lemma fresh_run:
  assumes "fresh d B" and "newSegment d B c = Inr (s0, d')" and "appends M s0 rs = Inr (offs, s)"
  shows "\<exists>qs. length qs = length rs \<and>
              (\<forall>i<length rs. M ((rs ! i)\<lparr>Offset := B + of_nat i\<rparr>) = Inr (qs ! i)) \<and>
              seg_holds s qs \<and> baseOffset s = B \<and> config s = c"
  using newSegment_fresh [OF assms(1,2)] seg_holds_appends [of s0 "[]" M rs offs s] assms(3)
  by auto

lemma read_back:
  assumes "codec_ok M U" and "fresh d B" and "newSegment d B c = Inr (s0, d')"
    and "appends M s0 rs = Inr (offs, s)" and "held s < 9223372036854775808"
    and "i < length rs"
  shows "fst (segment_Read U s (B + of_nat i))
           = Inr ((rs ! (i mod 4294967296))\<lparr>Offset := B + of_nat (i mod 4294967296)\<rparr>)"
proof -
  let ?t = "i mod 4294967296"
  from fresh_run [OF assms(2,3,4)] obtain qs where
    q: "length qs = length rs"
    "\<forall>i<length rs. M ((rs ! i)\<lparr>Offset := B + of_nat i\<rparr>) = Inr (qs ! i)"
    "seg_holds s qs" "baseOffset s = B"
    by blast
  have t: "?t < length rs" using assms(6) by (meson le_less_trans mod_less_eq_dividend)
  have b: "length (concat (map frame qs)) < 9223372036854775808"
    using assms(5) seg_holds_held [OF q(3)] by simp
  have "fst (segment_Read U s (baseOffset s + of_nat i)) = U (qs ! ?t)"
    using seg_holds_Read [OF q(3) _ b, of i U] assms(6) q(1) by simp
  moreover have "U (qs ! ?t) = Inr ((rs ! ?t)\<lparr>Offset := B + of_nat ?t\<rparr>)"
    using assms(1) q(2) t by (simp add: codec_ok_def)
  ultimately show ?thesis by (simp add: q(4))
qed

lemma appends_offsets_nth:
  assumes "appends M s rs = Inr (offs, s2)" and "i < length rs"
  shows "offs ! i = nextOffset s + of_nat i"
  using appends_offsets [OF assms(1)] assms(2) by simp

lemma frames_bound:
  "\<forall>q\<in>set qs. length q \<le> L \<Longrightarrow> length (concat (map frame qs)) \<le> length qs * (8 + L)"
  by (induction qs) auto

lemma demo_appends:
  "\<exists>offs s. appends plain_Marshal demo_segment demo_records = Inr (offs, s) \<and> held s = 54"
proof -
  have "\<not> isl (appends plain_Marshal demo_segment demo_records)" by code_simp
  then obtain offs s where a: "appends plain_Marshal demo_segment demo_records = Inr (offs, s)"
    by (cases "appends plain_Marshal demo_segment demo_records") auto
  have "held (snd (projr (appends plain_Marshal demo_segment demo_records))) = 54"
    by code_simp
  then show ?thesis using a by simp
qed

lemma big_run_facts:
  "length big_run = 4294967297" "big_run ! 0 = \<lparr>Value = [0], Offset = 0\<rparr>"
  "Value (big_run ! 4294967296) = [1]" "\<forall>r\<in>set big_run. length (Value r) = 1"
  by (simp_all add: big_run_def)

lemma big_run_read:
  "\<exists>s0 d' offs s.
     newSegment Map.empty 0 big_config = Inr (s0, d') \<and>
     appends plain_Marshal s0 big_run = Inr (offs, s) \<and>
     held s < 9223372036854775808 \<and>
     offs ! 4294967296 = 4294967296 \<and>
     fst (segment_Read plain_Unmarshal s 4294967296) = Inr \<lparr>Value = [0], Offset = 0\<rparr>"
proof -
  have c: "\<not> sint (MaxIndexBytes big_config) < 0" "MaxIndexBytes big_config \<noteq> 0"
    by (simp_all add: big_config_def)
  from newSegment_fresh_eq [OF fresh_empty c, of 0] obtain s0 d' where
    n: "newSegment Map.empty 0 big_config = Inr (s0, d')"
    by blast
  from newSegment_fresh [OF fresh_empty n] have
    s0: "seg_holds s0 []" "config s0 = big_config" "nextOffset s0 = 0"
    by simp_all
  have len: "length (mmap (index s0)) = 51539607564"
    using s0(1) by (simp add: seg_holds_def s0(2) big_config_def)
  have "\<exists>offs s. appends plain_Marshal s0 big_run = Inr (offs, s)"
    by (rule appends_succeed [OF s0(1)]) (simp_all add: plain_Marshal_def big_run_facts len)
  then obtain offs s where a: "appends plain_Marshal s0 big_run = Inr (offs, s)" by blast
  from fresh_run [OF fresh_empty n a] obtain qs where
    q: "length qs = length big_run"
    "\<forall>i<length big_run. plain_Marshal ((big_run ! i)\<lparr>Offset := 0 + of_nat i\<rparr>) = Inr (qs ! i)"
    "seg_holds s qs"
    by blast
  have "length x \<le> 9" if "x \<in> set qs" for x
  proof -
    from that obtain j where j: "j < length qs" "x = qs ! j" by (auto simp: in_set_conv_nth)
    then have "x = PutUint64 (0 + of_nat j) @ Value (big_run ! j)"
      using q(1,2) by (simp add: plain_Marshal_def)
    moreover have "length (Value (big_run ! j)) = 1"
      using big_run_facts(4) j(1) q(1) by simp
    ultimately show ?thesis by simp
  qed
  then have "length (concat (map frame qs)) \<le> length qs * (8 + 9)"
    by (intro frames_bound) simp
  then have h: "held s < 9223372036854775808"
    by (simp add: seg_holds_held [OF q(3)] q(1) big_run_facts)
  have o: "offs ! 4294967296 = 4294967296"
    using appends_offsets_nth [OF a, of 4294967296] by (simp add: big_run_facts s0(3))
  have "fst (segment_Read plain_Unmarshal s (0 + of_nat 4294967296))
          = Inr ((big_run ! (4294967296 mod 4294967296))\<lparr>Offset := 0 + of_nat (4294967296 mod 4294967296)\<rparr>)"
    by (rule read_back [OF plain_codec_ok fresh_empty n a h]) (simp add: big_run_facts)
  then have r: "fst (segment_Read plain_Unmarshal s 4294967296) = Inr \<lparr>Value = [0], Offset = 0\<rparr>"
    by (simp add: big_run_facts)
  from n a h o r show ?thesis by blast
qed

text \<open>
  C1 (amended). For every sequence of at most \<open>2^32\<close> records \<open>r_0 .. r_{n-1}\<close> appended
  successfully to a fresh segment with base offset \<open>B\<close>, with a codec that decodes what it
  encoded and a store that holds fewer than \<open>2^63\<close> bytes, and for every \<open>i < n\<close>,
  \<open>Read (B + i)\<close> returns a record whose payload is that of \<open>r_i\<close>.
\<close>

theorem segment_round_trip:
  assumes "codec_ok M U" and "fresh d B" and "newSegment d B c = Inr (s0, d')"
    and "appends M s0 rs = Inr (offs, s)"
    and "length rs \<le> 4294967296" and "held s < 9223372036854775808"
    and "i < length rs"
  shows "\<exists>r. fst (segment_Read U s (B + of_nat i)) = Inr r \<and> Value r = Value (rs ! i)"
  using read_back [OF assms(1,2,3,4,6,7)] assms(5,7) by simp

theorem segment_round_trip_witness:
  "\<exists>offs s. appends plain_Marshal demo_segment demo_records = Inr (offs, s) \<and>
     (\<exists>r. fst (segment_Read plain_Unmarshal s (16 + of_nat 1)) = Inr r \<and> Value r = [98, 98])"
proof -
  from demo_appends obtain offs s where
    a: "appends plain_Marshal demo_segment demo_records = Inr (offs, s)" and h: "held s = 54"
    by blast
  have "\<exists>r. fst (segment_Read plain_Unmarshal s (16 + of_nat 1)) = Inr r \<and>
          Value r = Value (demo_records ! 1)"
    using h by (intro segment_round_trip [OF plain_codec_ok fresh_empty demo_newSegment a])
      (simp_all add: demo_records_def)
  then show ?thesis using a by (simp add: demo_records_def)
qed

text \<open>
  Without the bound the claim fails: after \<open>2^32 + 1\<close> appends, \<open>Read (B + 2^32)\<close>
  returns the first record, whose payload differs from that of record \<open>2^32\<close>, because
  the index truncates the relative offset to \<open>uint32\<close>.
\<close>

theorem round_trip_wraps_counterexample:
  "\<exists>s0 d' offs s.
     fresh Map.empty 0 \<and> newSegment Map.empty 0 big_config = Inr (s0, d') \<and>
     appends plain_Marshal s0 big_run = Inr (offs, s) \<and>
     4294967296 < length big_run \<and> Value (big_run ! 4294967296) = [1] \<and>
     fst (segment_Read plain_Unmarshal s (0 + 4294967296)) = Inr \<lparr>Value = [0], Offset = 0\<rparr>"
  using big_run_read fresh_empty [of 0] by (simp add: big_run_facts) blast

text \<open>
  C10 (amended). For every record appended successfully at the absolute offset \<open>A\<close> to a
  fresh segment, among at most \<open>2^32\<close> records, with a codec that decodes what it encoded
  and a store that holds fewer than \<open>2^63\<close> bytes, a later \<open>Read A\<close> returns a record
  whose \<open>Offset\<close> field is \<open>A\<close>.
\<close>

theorem segment_stamped_offset:
  assumes "codec_ok M U" and "fresh d B" and "newSegment d B c = Inr (s0, d')"
    and "appends M s0 rs = Inr (offs, s)"
    and "length rs \<le> 4294967296" and "held s < 9223372036854775808"
    and "i < length rs"
  shows "\<exists>r. fst (segment_Read U s (offs ! i)) = Inr r \<and> Offset r = offs ! i"
proof -
  have "offs ! i = B + of_nat i"
    using appends_offsets [OF assms(4)] newSegment_fresh [OF assms(2,3)] assms(7) by simp
  then show ?thesis
    using read_back [OF assms(1,2,3,4,6,7)] assms(5,7) by simp
qed

theorem segment_stamped_offset_witness:
  "\<exists>offs s. appends plain_Marshal demo_segment demo_records = Inr (offs, s) \<and> offs ! 2 = 18 \<and>
     (\<exists>r. fst (segment_Read plain_Unmarshal s 18) = Inr r \<and> Offset r = 18)"
proof -
  from demo_appends obtain offs s where
    a: "appends plain_Marshal demo_segment demo_records = Inr (offs, s)" and h: "held s = 54"
    by blast
  have o: "offs ! 2 = 18"
    using appends_offsets_nth [OF a, of 2] by (simp add: demo_records_def demo_segment_def)
  have "\<exists>r. fst (segment_Read plain_Unmarshal s (offs ! 2)) = Inr r \<and> Offset r = offs ! 2"
    using h by (intro segment_stamped_offset [OF plain_codec_ok fresh_empty demo_newSegment a])
      (simp_all add: demo_records_def)
  then show ?thesis using a o by simp
qed

text \<open>
  Without the bound the claim fails: the record appended at offset \<open>2^32\<close> of a segment
  with base offset 0 is read back as the record stamped with offset 0.
\<close>

theorem stamped_offset_wraps_counterexample:
  "\<exists>s0 d' offs s.
     fresh Map.empty 0 \<and> newSegment Map.empty 0 big_config = Inr (s0, d') \<and>
     appends plain_Marshal s0 big_run = Inr (offs, s) \<and>
     4294967296 < length big_run \<and> offs ! 4294967296 = 4294967296 \<and>
     (\<exists>r. fst (segment_Read plain_Unmarshal s (offs ! 4294967296)) = Inr r \<and> Offset r = 0)"
  using big_run_read fresh_empty [of 0] by (simp add: big_run_facts) fastforce

subsection \<open>Reading outside the segment\<close>

lemma segment_Read_index_error:
  "index_Read (index s) (A - baseOffset s) = Inl e \<Longrightarrow> fst (segment_Read U s A) = Inl e"
  by (simp add: segment_Read_def)

text \<open>
  C3 (amended). On a segment whose index holds \<open>e \<le> 2^32\<close> entries within its mapping,
  \<open>Read A\<close> returns \<open>EOF\<close> and no record when the index is empty, and when the relative
  offset \<open>A - baseOffset\<close> is not \<open>-1\<close> and its truncation to \<open>uint32\<close> is at least \<open>e\<close>:
  so for every \<open>A\<close> from \<open>baseOffset + e\<close> (which is \<open>nextOffset\<close>) up to
  \<open>baseOffset + 2^32 - 1\<close>, and for every \<open>A\<close> from \<open>baseOffset + e - 2^32\<close> up to
  \<open>baseOffset - 2\<close>.
\<close>

theorem segment_Read_out_of_range:
  assumes "index_size (index s) = of_nat (12 * e)" and "12 * e \<le> length (mmap (index s))"
    and "length (mmap (index s)) < 9223372036854775808" and "e \<le> 4294967296"
  shows "(e = 0 \<longrightarrow> fst (segment_Read U s A) = Inl EOF) \<and>
         (A - baseOffset s \<noteq> - 1 \<and> e \<le> unat (ucast (A - baseOffset s) :: u32) \<longrightarrow>
            fst (segment_Read U s A) = Inl EOF) \<and>
         (\<forall>k. e \<le> k \<and> k < 4294967296 \<longrightarrow>
            fst (segment_Read U s (baseOffset s + of_nat k)) = Inl EOF) \<and>
         (\<forall>k. 1 < k \<and> k + e \<le> 4294967296 \<longrightarrow>
            fst (segment_Read U s (baseOffset s - of_nat k)) = Inl EOF)"
proof -
  note r = index_Read_ranges [OF assms]
  have 0: "fst (segment_Read U s A) = Inl EOF" if "e = 0"
    using that assms(1) by (intro segment_Read_index_error index_Read_EOF) simp
  have 1: "fst (segment_Read U s A) = Inl EOF"
    if "A - baseOffset s \<noteq> - 1 \<and> e \<le> unat (ucast (A - baseOffset s) :: u32)"
    using that r [of "A - baseOffset s"] by (intro segment_Read_index_error) simp
  have 2: "fst (segment_Read U s (baseOffset s + of_nat k)) = Inl EOF"
    if "e \<le> k \<and> k < 4294967296" for k
    using that r [of 0] by (intro segment_Read_index_error) simp
  have 3: "fst (segment_Read U s (baseOffset s - of_nat k)) = Inl EOF"
    if "1 < k \<and> k + e \<le> 4294967296" for k
    using that r [of 0] by (intro segment_Read_index_error) simp
  from 0 1 2 3 show ?thesis by blast
qed

lemma demo_two:
  "\<exists>offs s. appends plain_Marshal demo_segment (take 2 demo_records) = Inr (offs, s) \<and>
     baseOffset s = 16 \<and> nextOffset s = 18 \<and> index_size (index s) = 24 \<and>
     length (mmap (index s)) = 36"
proof -
  have "\<not> isl (appends plain_Marshal demo_segment (take 2 demo_records))" by code_simp
  then obtain offs s where
    a: "appends plain_Marshal demo_segment (take 2 demo_records) = Inr (offs, s)"
    by (cases "appends plain_Marshal demo_segment (take 2 demo_records)") auto
  let ?s = "snd (projr (appends plain_Marshal demo_segment (take 2 demo_records)))"
  have "baseOffset ?s = 16" "nextOffset ?s = 18" "index_size (index ?s) = 24"
    "length (mmap (index ?s)) = 36"
    by code_simp+
  then show ?thesis using a by simp
qed

theorem segment_Read_out_of_range_witness:
  "\<exists>offs s. appends plain_Marshal demo_segment (take 2 demo_records) = Inr (offs, s) \<and>
     nextOffset s = 18 \<and>
     fst (segment_Read plain_Unmarshal s 18) = Inl EOF \<and>
     fst (segment_Read plain_Unmarshal s 14) = Inl EOF"
proof -
  from demo_two obtain offs s where
    a: "appends plain_Marshal demo_segment (take 2 demo_records) = Inr (offs, s)" and
    s: "baseOffset s = 16" "nextOffset s = 18" "index_size (index s) = 24"
    "length (mmap (index s)) = 36"
    by blast
  have h: "index_size (index s) = of_nat (12 * 2)" "12 * 2 \<le> length (mmap (index s))"
    "length (mmap (index s)) < 9223372036854775808" "(2::nat) \<le> 4294967296"
    using s by simp_all
  note t = segment_Read_out_of_range [OF h, of plain_Unmarshal 0]
  have "fst (segment_Read plain_Unmarshal s (baseOffset s + of_nat 2)) = Inl EOF"
    using t by (elim conjE allE [of _ 2]) simp
  moreover have "fst (segment_Read plain_Unmarshal s (baseOffset s - of_nat 2)) = Inl EOF"
    using t by (elim conjE allE [of _ 2]) simp
  ultimately show ?thesis using a s by simp
qed

text \<open>
  The claim as written fails on a segment with base offset 16 and two records: offset 15
  lies below the base offset, yet \<open>Read 15\<close> returns the last record (the relative offset
  \<open>-1\<close> is the index's request for its last entry), and \<open>Read (16 + 2^32)\<close> returns the
  first record.
\<close>

theorem segment_Read_outside_counterexample:
  "\<not> isl (appends plain_Marshal demo_segment (take 2 demo_records)) \<and>
   baseOffset (snd (projr (appends plain_Marshal demo_segment (take 2 demo_records)))) = 16 \<and>
   nextOffset (snd (projr (appends plain_Marshal demo_segment (take 2 demo_records)))) = 18 \<and>
   fst (segment_Read plain_Unmarshal
          (snd (projr (appends plain_Marshal demo_segment (take 2 demo_records)))) 15)
     = Inr \<lparr>Value = [98, 98], Offset = 17\<rparr> \<and>
   fst (segment_Read plain_Unmarshal
          (snd (projr (appends plain_Marshal demo_segment (take 2 demo_records)))) 4294967312)
     = Inr \<lparr>Value = [97], Offset = 16\<rparr>"
  by code_simp

subsection \<open>The alignment helper\<close>

lemma nearestMultiple_go_div:
  "nearestMultiple j k = (case go_div j k of Inl e \<Rightarrow> Inl e | Inr q \<Rightarrow> Inr (q * k))"
  by (simp add: nearestMultiple_def)

lemma unat_floor_multiple:
  fixes j k :: u64
  assumes "k \<noteq> 0"
  shows "unat ((j div k) * k) = (unat j div unat k) * unat k"
proof -
  have "unat j div unat k * unat k \<le> unat j" by simp
  also have "\<dots> < 2 ^ LENGTH(64)" by (rule unsigned_less)
  finally show ?thesis by (simp add: unat_mult_lem [THEN iffD1] unat_div)
qed

lemma multiple_below_floor:
  fixes j k :: u64
  assumes "k \<noteq> 0" and "unat k dvd m" and "m \<le> unat j"
  shows "m \<le> (unat j div unat k) * unat k"
proof -
  from assms(2) obtain q where m: "m = unat k * q" by (auto simp: dvd_def)
  have k: "0 < unat k" using assms(1) by (simp add: unat_gt_0)
  from assms(3) m have "q \<le> unat j div unat k"
    using k by (simp add: less_eq_div_iff_mult_less_eq mult.commute)
  then show ?thesis using m by (simp add: mult.commute)
qed

text \<open>
  C8. For every \<open>uint64\<close> \<open>j\<close> and every nonzero \<open>k\<close>, \<open>nearestMultiple j k\<close> returns
  \<open>(j / k) * k\<close>, which is a multiple of \<open>k\<close>, does not exceed \<open>j\<close> and is the largest
  such multiple; the test \<open>j >= 0\<close> holds for every unsigned \<open>j\<close>, so the other branch is
  never taken.
\<close>

theorem nearestMultiple_floor:
  "k \<noteq> 0 \<Longrightarrow>
     0 \<le> j \<and> nearestMultiple j k = Inr ((j div k) * k) \<and>
     unat ((j div k) * k) = (unat j div unat k) * unat k \<and>
     unat k dvd unat ((j div k) * k) \<and> (j div k) * k \<le> j \<and>
     (\<forall>m. unat k dvd m \<and> m \<le> unat j \<longrightarrow> m \<le> unat ((j div k) * k))"
  using unat_floor_multiple [of k j] multiple_below_floor [of k _ j]
  by (auto simp: nearestMultiple_go_div go_div_def word_le_nat_alt)

theorem nearestMultiple_floor_witness:
  "(5::u64) \<noteq> 0 \<and> nearestMultiple 17 5 = Inr 15"
  using nearestMultiple_floor [of 5 17] by simp

end
